theory Spec2Isabelle
  imports Complex_Main "HOL-Library.AList" "HOL-Library.Char_ord" "HOL-Library.List_Lexorder"
    "HOL-Library.Word" "HOL-Library.Log_Nat"
begin

section \<open>Go numbers\<close>

text \<open>
  Go's \<open>int\<close> is the 64-bit signed integer of the platforms the server is built for:
  a \<open>64 word\<close>, read by \<open>sint\<close>, on which \<open>+\<close> wraps around and \<open><s\<close> is the signed
  order. \<open>int64\<close> is the same type of words.

  A \<open>float64\<close> is a finite number, an infinity or NaN. \<open>Finite x\<close> stands for the float64
  whose value is the real \<open>x\<close>; the two zeros are one value, as \<open>==\<close> does not tell them
  apart. The operations on float64 that the store uses are \<open>==\<close>, the conversion
  \<open>float64(i)\<close> of an integer and the conversion \<open>int(x)\<close> to an integer. A \<open>float32\<close>
  is a float64 that the narrower type represents, and \<open>float64(x)\<close> of it is \<open>x\<close>.
\<close>

datatype float64 =
    Finite real
  | PosInf
  | NegInf
  | NaN

text \<open>\<open>a == b\<close> on float64: NaN is equal to nothing, itself included.\<close>

definition float64_eq :: "float64 \<Rightarrow> float64 \<Rightarrow> bool" where
  "float64_eq a b = (a \<noteq> NaN \<and> b \<noteq> NaN \<and> a = b)"

text \<open>
  \<open>float64(i)\<close> of an integer: the nearest number with a significand of 53 bits, the
  one with the even significand when two are equally near. \<open>e\<close> is the number of low
  bits of the magnitude that do not fit, \<open>q\<close> the bits that do, \<open>r\<close> the bits cut off.
\<close>

definition float64_of_int :: "int \<Rightarrow> float64" where
  "float64_of_int i =
     (let n = nat \<bar>i\<bar>;
          e = floorlog 2 n - 53;
          q = n div 2 ^ e;
          r = n mod 2 ^ e;
          q = (if 2 ^ e < 2 * r \<or> (2 * r = 2 ^ e \<and> odd q) then q + 1 else q)
      in Finite (real_of_int (sgn i * int (q * 2 ^ e))))"

text \<open>
  \<open>int(value)\<close> of a float64: the fraction is dropped. When the result does not fit
  the 64 bits (or the value is an infinity or NaN) Go leaves the result to the platform:
  \<open>conv\<close> is what the platform gives then.
\<close>

definition go_int :: "(float64 \<Rightarrow> 64 word) \<Rightarrow> float64 \<Rightarrow> 64 word" where
  "go_int conv value =
     (case value of
        Finite x \<Rightarrow>
          (let t = (if 0 \<le> x then \<lfloor>x\<rfloor> else \<lceil>x\<rceil>)
           in if - (2 ^ 63) \<le> t \<and> t < 2 ^ 63 then word_of_int t else conv value)
      | _ \<Rightarrow> conv value)"

section \<open>Go values\<close>

text \<open>
  A Go value of type \<open>any\<close> as the document store sees it: the dynamic types that
  \<open>numberValue\<close> distinguishes, and the shapes that JSON decoding and the Lua bridge
  produce (nil, bool, string, byte slices, float64, slices and string-keyed maps). The
  slices and maps are allocated ones (not nil), as both producers make them.

  A Go map is an association list with one entry per key; the order of the list is the
  iteration order of the map, which Go leaves unspecified, so everything below is stated for
  every order.
\<close>

datatype gval =
    GNil
  | GBool bool
  | GString string
  | GBytes string
  | GInt "64 word"
  | GInt64 "64 word"
  | GFloat64 float64
  | GFloat32 float64
  | GJsonNumber string
  | GSlice "gval list"
  | GMap "(string \<times> gval) list"

type_synonym Record = "(string \<times> gval) list"

type_synonym error = string

text \<open>A map holds each key once.\<close>

definition wf_map :: "(string \<times> 'v) list \<Rightarrow> bool" where
  "wf_map m = distinct (map fst m)"

text \<open>\<open>m[key]\<close> without the \<open>ok\<close> result: the zero value (nil) when the key is missing.\<close>

definition index :: "Record \<Rightarrow> string \<Rightarrow> gval" where
  "index m key = (case map_of m key of None \<Rightarrow> GNil | Some v \<Rightarrow> v)"

text \<open>
  \<open>reflect.DeepEqual\<close> on these values, held in different objects: the dynamic types
  must be the same, scalars are compared by \<open>==\<close>, slices element by element, maps key by
  key. (Of one and the same slice or map object \<open>DeepEqual\<close> holds without a look at the
  elements; that differs from the comparison of the elements only when NaN is among them.)
\<close>

fun deepEqual :: "gval \<Rightarrow> gval \<Rightarrow> bool" where
  "deepEqual GNil r = (case r of GNil \<Rightarrow> True | _ \<Rightarrow> False)"
| "deepEqual (GBool a) r = (case r of GBool b \<Rightarrow> a = b | _ \<Rightarrow> False)"
| "deepEqual (GString a) r = (case r of GString b \<Rightarrow> a = b | _ \<Rightarrow> False)"
| "deepEqual (GBytes a) r = (case r of GBytes b \<Rightarrow> a = b | _ \<Rightarrow> False)"
| "deepEqual (GInt a) r = (case r of GInt b \<Rightarrow> a = b | _ \<Rightarrow> False)"
| "deepEqual (GInt64 a) r = (case r of GInt64 b \<Rightarrow> a = b | _ \<Rightarrow> False)"
| "deepEqual (GFloat64 a) r = (case r of GFloat64 b \<Rightarrow> float64_eq a b | _ \<Rightarrow> False)"
| "deepEqual (GFloat32 a) r = (case r of GFloat32 b \<Rightarrow> float64_eq a b | _ \<Rightarrow> False)"
| "deepEqual (GJsonNumber a) r = (case r of GJsonNumber b \<Rightarrow> a = b | _ \<Rightarrow> False)"
| "deepEqual (GSlice xs) r = (case r of GSlice ys \<Rightarrow> list_all2 deepEqual xs ys | _ \<Rightarrow> False)"
| "deepEqual (GMap m1) r =
     (case r of
        GMap m2 \<Rightarrow>
          length m1 = length m2 \<and>
          list_all (\<lambda>(k, v). case map_of m2 k of None \<Rightarrow> False | Some w \<Rightarrow> deepEqual v w) m1
      | _ \<Rightarrow> False)"

text \<open>
  Values without nesting, values whose maps, at every depth, hold each key once, and
  values that hold no NaN at any depth.
\<close>

definition scalar :: "gval \<Rightarrow> bool" where
  "scalar v = (case v of GSlice xs \<Rightarrow> False | GMap m \<Rightarrow> False | _ \<Rightarrow> True)"

fun wf_val :: "gval \<Rightarrow> bool" where
  "wf_val (GMap m) = (wf_map m \<and> list_all (\<lambda>(k, v). wf_val v) m)"
| "wf_val (GSlice xs) = list_all wf_val xs"
| "wf_val _ = True"

fun nan_free :: "gval \<Rightarrow> bool" where
  "nan_free (GFloat64 x) = (x \<noteq> NaN)"
| "nan_free (GFloat32 x) = (x \<noteq> NaN)"
| "nan_free (GMap m) = list_all (\<lambda>(k, v). nan_free v) m"
| "nan_free (GSlice xs) = list_all nan_free xs"
| "nan_free _ = True"

section \<open>The document store (package db)\<close>

subsection \<open>Matching\<close>

text \<open>
  \<open>numberValue\<close> takes \<open>json.Number.Float64\<close> (\<open>strconv.ParseFloat\<close>) as the parameter
  \<open>pf\<close>: \<open>None\<close> is its error. The Go function returns \<open>(0, false)\<close> where the model
  returns \<open>None\<close>.
\<close>

fun numberValue :: "(string \<Rightarrow> float64 option) \<Rightarrow> gval \<Rightarrow> float64 option" where
  "numberValue pf (GInt typed) = Some (float64_of_int (sint typed))"
| "numberValue pf (GInt64 typed) = Some (float64_of_int (sint typed))"
| "numberValue pf (GFloat64 typed) = Some typed"
| "numberValue pf (GFloat32 typed) = Some typed"
| "numberValue pf (GJsonNumber typed) = pf typed"
| "numberValue pf _ = None"

definition valuesEqual :: "(string \<Rightarrow> float64 option) \<Rightarrow> gval \<Rightarrow> gval \<Rightarrow> bool" where
  "valuesEqual pf left right =
     (case (numberValue pf left, numberValue pf right) of
        (Some leftNumber, Some rightNumber) \<Rightarrow> float64_eq leftNumber rightNumber
      | _ \<Rightarrow> deepEqual left right)"

text \<open>
  The number that a numeric-like value stands for, in the specification's sense: the
  integer itself, the finite float itself, and for a \<open>json.Number\<close> the finite number its
  text parses to.
\<close>

definition numeric_value :: "(string \<Rightarrow> float64 option) \<Rightarrow> gval \<Rightarrow> real option" where
  "numeric_value pf v =
     (case v of
        GInt i \<Rightarrow> Some (real_of_int (sint i))
      | GInt64 i \<Rightarrow> Some (real_of_int (sint i))
      | GFloat64 (Finite x) \<Rightarrow> Some x
      | GFloat32 (Finite x) \<Rightarrow> Some x
      | GJsonNumber text \<Rightarrow> (case pf text of Some (Finite x) \<Rightarrow> Some x | _ \<Rightarrow> None)
      | _ \<Rightarrow> None)"

text \<open>
  The numeric-like values that a float64 holds exactly: the finite floats, and the
  integers up to \<open>2^53\<close> in magnitude.
\<close>

definition exact_number :: "(string \<Rightarrow> float64 option) \<Rightarrow> gval \<Rightarrow> bool" where
  "exact_number pf v =
     (case v of
        GInt i \<Rightarrow> \<bar>sint i\<bar> \<le> 2 ^ 53
      | GInt64 i \<Rightarrow> \<bar>sint i\<bar> \<le> 2 ^ 53
      | GFloat64 (Finite x) \<Rightarrow> True
      | GFloat32 (Finite x) \<Rightarrow> True
      | GJsonNumber text \<Rightarrow> (case pf text of Some (Finite x) \<Rightarrow> True | _ \<Rightarrow> False)
      | _ \<Rightarrow> False)"

text \<open>The loop of \<open>matches\<close> over the criteria, leaving at the first criterion that fails.\<close>

fun matches_loop :: "(string \<Rightarrow> float64 option) \<Rightarrow> Record \<Rightarrow> Record \<Rightarrow> bool" where
  "matches_loop pf record [] = True"
| "matches_loop pf record ((key, expected) # rest) =
     (case map_of record key of
        None \<Rightarrow> False
      | Some actual \<Rightarrow>
          if \<not> valuesEqual pf actual expected then False
          else matches_loop pf record rest)"

definition matches :: "(string \<Rightarrow> float64 option) \<Rightarrow> Record \<Rightarrow> Record \<Rightarrow> bool" where
  "matches pf record criteria =
     (if length criteria = 0 then True else matches_loop pf record criteria)"

subsection \<open>The store and its file\<close>

record Store =
  path :: string
  data :: "(string \<times> Record list) list"
  nextID :: "64 word"

text \<open>\<open>s.data[collection]\<close>: the nil slice when the collection is unknown.\<close>

definition records_of :: "(string \<times> Record list) list \<Rightarrow> string \<Rightarrow> Record list" where
  "records_of d collection = (case map_of d collection of None \<Rightarrow> [] | Some rs \<Rightarrow> rs)"

text \<open>\<open>copy := make(Record); for key, value := range record { copy[key] = value }\<close>\<close>

definition cloneRecord :: "Record \<Rightarrow> Record" where
  "cloneRecord record = fold (\<lambda>(key, value) copy. AList.update key value copy) record []"

text \<open>The two loops of \<open>maxID\<close>; \<open>int(value) > maxID\<close> compares signed integers.\<close>

fun maxID_records ::
  "(float64 \<Rightarrow> 64 word) \<Rightarrow> (string \<Rightarrow> float64 option) \<Rightarrow> Record list \<Rightarrow> 64 word \<Rightarrow> 64 word" where
  "maxID_records conv pf [] maxID = maxID"
| "maxID_records conv pf (record # rest) maxID =
     maxID_records conv pf rest
       (case numberValue pf (index record ''id'') of
          Some value \<Rightarrow> if maxID <s go_int conv value then go_int conv value else maxID
        | None \<Rightarrow> maxID)"

fun maxID_collections ::
  "(float64 \<Rightarrow> 64 word) \<Rightarrow> (string \<Rightarrow> float64 option) \<Rightarrow> (string \<times> Record list) list
     \<Rightarrow> 64 word \<Rightarrow> 64 word" where
  "maxID_collections conv pf [] maxID = maxID"
| "maxID_collections conv pf ((name, records) # rest) maxID =
     maxID_collections conv pf rest (maxID_records conv pf records maxID)"

definition maxID :: "(float64 \<Rightarrow> 64 word) \<Rightarrow> (string \<Rightarrow> float64 option) \<Rightarrow> Store \<Rightarrow> 64 word" where
  "maxID conv pf s = maxID_collections conv pf (data s) 0"

text \<open>
  What \<open>Open\<close> finds at the path: \<open>os.Stat\<close> reports that nothing is there or fails
  otherwise, \<open>os.ReadFile\<close> fails, the payload is empty, \<open>json.Unmarshal\<close> rejects it, or
  accepts it. A payload that is accepted is a JSON object of arrays of objects, which
  decodes to a mapping from collection names to record sequences (\<open>Payload\<close>), or it has
  the JSON value null in place of the object or of a record (\<open>NullPayload\<close>), which leaves
  a nil map or a nil record in \<open>data\<close>. The file that \<open>saveLocked\<close> writes from a store
  of allocated maps is of the first kind.
\<close>

datatype disk_file =
    NotExist
  | StatError error
  | ReadError error
  | EmptyPayload
  | BadPayload error
  | NullPayload
  | Payload "(string \<times> Record list) list"

text \<open>
  What \<open>Open\<close> returns: an error, a store, or a store that holds a nil map or a nil
  record. \<open>Insert\<close>, \<open>Update\<close> and \<open>Delete\<close> panic where they write to a nil map; the
  \<open>Store\<close> of this theory, on which they are defined, is a store of allocated maps.
\<close>

datatype opened =
    OpenError error
  | Opened Store
  | OpenedNil

definition Open ::
  "(float64 \<Rightarrow> 64 word) \<Rightarrow> (string \<Rightarrow> float64 option) \<Rightarrow> string \<Rightarrow> disk_file \<Rightarrow> opened" where
  "Open conv pf p f =
     (let store = \<lparr>path = p, data = [], nextID = 1\<rparr> in
      if p = '''' then Opened store
      else case f of
        NotExist \<Rightarrow> Opened store
      | StatError err \<Rightarrow> OpenError err
      | ReadError err \<Rightarrow> OpenError err
      | EmptyPayload \<Rightarrow> Opened store
      | BadPayload err \<Rightarrow> OpenError err
      | NullPayload \<Rightarrow> OpenedNil
      | Payload d \<Rightarrow>
          (let store = store\<lparr>data := d\<rparr>
           in Opened (store\<lparr>nextID := maxID conv pf store + 1\<rparr>)))"

text \<open>
  What the operating system and the encoder answer during one call of \<open>saveLocked\<close>:
  the result of \<open>filepath.Dir\<close>, and the errors (if any) of \<open>os.MkdirAll\<close>,
  \<open>json.MarshalIndent\<close> and \<open>os.WriteFile\<close>.
\<close>

record save_env =
  env_dir :: string
  env_mkdir :: "error option"
  env_marshal :: "error option"
  env_write :: "error option"

definition saveLocked :: "save_env \<Rightarrow> Store \<Rightarrow> error option" where
  "saveLocked env s =
     (if path s = '''' then None
      else case (if env_dir env \<noteq> ''.'' then env_mkdir env else None) of
        Some err \<Rightarrow> Some err
      | None \<Rightarrow>
          (case env_marshal env of
             Some err \<Rightarrow> Some err
           | None \<Rightarrow> env_write env))"

text \<open>A call of \<open>saveLocked\<close> during which nothing fails.\<close>

definition no_failure :: save_env where
  "no_failure = \<lparr>env_dir = ''.'', env_mkdir = None, env_marshal = None, env_write = None\<rparr>"

subsection \<open>The four operations\<close>

text \<open>
  Each operation returns Go's result pair and the store as the call leaves it. A nil
  record or slice is the empty list. The counts of \<open>Update\<close> and \<open>Delete\<close> count
  elements of a slice, of which there are fewer than \<open>2^63\<close>: they are of type \<open>int\<close>.
\<close>

definition Query ::
  "(string \<Rightarrow> float64 option) \<Rightarrow> string \<Rightarrow> Record \<Rightarrow> Store \<Rightarrow> (Record list \<times> error option) \<times> Store" where
  "Query pf collection criteria s =
     (if collection = '''' then (([], Some ''collection is required''), s)
      else
        let records = records_of (data s) collection;
            result = map cloneRecord (filter (\<lambda>record. matches pf record criteria) records)
        in ((result, None), s))"

definition Insert ::
  "save_env \<Rightarrow> string \<Rightarrow> Record \<Rightarrow> Store \<Rightarrow> (Record \<times> error option) \<times> Store" where
  "Insert env collection record s =
     (if collection = '''' then (([], Some ''collection is required''), s)
      else
        let copy = cloneRecord record;
            (copy, s) =
              (if map_of copy ''id'' = None
               then (AList.update ''id'' (GInt (nextID s)) copy, s\<lparr>nextID := nextID s + 1\<rparr>)
               else (copy, s));
            s = s\<lparr>data := AList.update collection (records_of (data s) collection @ [copy]) (data s)\<rparr>
        in case saveLocked env s of
             Some err \<Rightarrow> (([], Some err), s)
           | None \<Rightarrow> ((cloneRecord copy, None), s))"

text \<open>\<open>for key, value := range updates { record[key] = value }\<close>\<close>

definition apply_updates :: "Record \<Rightarrow> Record \<Rightarrow> Record" where
  "apply_updates updates record =
     fold (\<lambda>(key, value) record. AList.update key value record) updates record"

fun Update_loop ::
  "(string \<Rightarrow> float64 option) \<Rightarrow> Record \<Rightarrow> Record \<Rightarrow> Record list \<Rightarrow> Record list \<times> int" where
  "Update_loop pf criteria updates [] = ([], 0)"
| "Update_loop pf criteria updates (record # rest) =
     (let (rest', updated) = Update_loop pf criteria updates rest
      in if \<not> matches pf record criteria then (record # rest', updated)
         else (apply_updates updates record # rest', updated + 1))"

definition Update ::
  "(string \<Rightarrow> float64 option) \<Rightarrow> save_env \<Rightarrow> string \<Rightarrow> Record \<Rightarrow> Record \<Rightarrow> Store
     \<Rightarrow> (int \<times> error option) \<times> Store" where
  "Update pf env collection criteria updates s =
     (if collection = '''' then ((0, Some ''collection is required''), s)
      else
        let (records, updated) = Update_loop pf criteria updates (records_of (data s) collection);
            s = s\<lparr>data := AList.update collection records (data s)\<rparr>
        in case saveLocked env s of
             Some err \<Rightarrow> ((0, Some err), s)
           | None \<Rightarrow> ((updated, None), s))"

fun Delete_loop ::
  "(string \<Rightarrow> float64 option) \<Rightarrow> Record \<Rightarrow> Record list \<Rightarrow> Record list \<times> int" where
  "Delete_loop pf criteria [] = ([], 0)"
| "Delete_loop pf criteria (record # rest) =
     (let (remaining, deleted) = Delete_loop pf criteria rest
      in if matches pf record criteria then (remaining, deleted + 1)
         else (record # remaining, deleted))"

definition Delete ::
  "(string \<Rightarrow> float64 option) \<Rightarrow> save_env \<Rightarrow> string \<Rightarrow> Record \<Rightarrow> Store
     \<Rightarrow> (int \<times> error option) \<times> Store" where
  "Delete pf env collection criteria s =
     (if collection = '''' then ((0, Some ''collection is required''), s)
      else
        let (remaining, deleted) = Delete_loop pf criteria (records_of (data s) collection);
            s = s\<lparr>data := AList.update collection remaining (data s)\<rparr>
        in case saveLocked env s of
             Some err \<Rightarrow> ((0, Some err), s)
           | None \<Rightarrow> ((deleted, None), s))"

subsection \<open>Identifiers over the life of a store\<close>

text \<open>
  The identifier that \<open>Insert\<close> writes into the copy (\<open>copy["id"] = s.nextID\<close>), when
  it writes one, and the record that \<open>Insert\<close> appends to the collection.
\<close>

definition assigned_id :: "string \<Rightarrow> Record \<Rightarrow> Store \<Rightarrow> 64 word option" where
  "assigned_id collection record s =
     (if collection \<noteq> '''' \<and> map_of (cloneRecord record) ''id'' = None
      then Some (nextID s) else None)"

definition stored_record :: "save_env \<Rightarrow> string \<Rightarrow> Record \<Rightarrow> Store \<Rightarrow> Record" where
  "stored_record env collection record s =
     last (records_of (data (snd (Insert env collection record s))) collection)"

text \<open>
  A life of the store: any sequence of calls, each mutating call with the answers its
  \<open>saveLocked\<close> gets. \<open>issued\<close> lists the identifiers the store assigns along the way.
\<close>

datatype op =
    OpQuery string Record
  | OpInsert save_env string Record
  | OpUpdate save_env string Record Record
  | OpDelete save_env string Record

fun apply_op :: "(string \<Rightarrow> float64 option) \<Rightarrow> op \<Rightarrow> Store \<Rightarrow> Store" where
  "apply_op pf (OpQuery collection criteria) s = snd (Query pf collection criteria s)"
| "apply_op pf (OpInsert env collection record) s = snd (Insert env collection record s)"
| "apply_op pf (OpUpdate env collection criteria updates) s =
     snd (Update pf env collection criteria updates s)"
| "apply_op pf (OpDelete env collection criteria) s = snd (Delete pf env collection criteria s)"

fun run :: "(string \<Rightarrow> float64 option) \<Rightarrow> op list \<Rightarrow> Store \<Rightarrow> Store" where
  "run pf [] s = s"
| "run pf (operation # rest) s = run pf rest (apply_op pf operation s)"

fun issued_by :: "op \<Rightarrow> Store \<Rightarrow> 64 word list" where
  "issued_by (OpInsert env collection record) s =
     (case assigned_id collection record s of None \<Rightarrow> [] | Some n \<Rightarrow> [n])"
| "issued_by _ s = []"

fun issued :: "(string \<Rightarrow> float64 option) \<Rightarrow> op list \<Rightarrow> Store \<Rightarrow> 64 word list" where
  "issued pf [] s = []"
| "issued pf (operation # rest) s = issued_by operation s @ issued pf rest (apply_op pf operation s)"

text \<open>
  The records of a decoded file, and the numeric values of their \<open>id\<close> fields (the
  values \<open>maxID\<close> looks at).
\<close>

definition file_records :: "(string \<times> Record list) list \<Rightarrow> Record list" where
  "file_records d = concat (map snd d)"

definition record_ids :: "(string \<Rightarrow> float64 option) \<Rightarrow> Record list \<Rightarrow> float64 list" where
  "record_ids pf rs =
     concat (map (\<lambda>record. case numberValue pf (index record ''id'') of
                               None \<Rightarrow> [] | Some value \<Rightarrow> [value]) rs)"

definition existing_ids ::
  "(string \<Rightarrow> float64 option) \<Rightarrow> (string \<times> Record list) list \<Rightarrow> float64 list" where
  "existing_ids pf d = record_ids pf (file_records d)"

text \<open>
  The specification's formula for the next identifier after loading a file, in its own
  words: the maximum of the existing ids (the finite ones), plus one.
\<close>

definition finite_ids :: "(string \<Rightarrow> float64 option) \<Rightarrow> (string \<times> Record list) list \<Rightarrow> real list" where
  "finite_ids pf d =
     concat (map (\<lambda>value. case value of Finite x \<Rightarrow> [x] | _ \<Rightarrow> []) (existing_ids pf d))"

definition spec_next_id :: "(string \<Rightarrow> float64 option) \<Rightarrow> (string \<times> Record list) list \<Rightarrow> real" where
  "spec_next_id pf d = Max (set (finite_ids pf d)) + 1"

section \<open>Lua values and the key/value store (packages server and sugardb)\<close>

text \<open>
  The values of the Lua state as the bridge handles them. A number is a float64. A table
  is the list of its entries in the order \<open>ForEach\<close> visits them; functions and user data
  are known by an identity only.
\<close>

datatype lvalue =
    LNil
  | LBool bool
  | LNumber float64
  | LString string
  | LTable "(lvalue \<times> lvalue) list"
  | LFunction nat
  | LUserData nat

definition RawSetString :: "string \<Rightarrow> lvalue \<Rightarrow> (lvalue \<times> lvalue) list \<Rightarrow> (lvalue \<times> lvalue) list" where
  "RawSetString key value table = AList.update (LString key) value table"

definition RawSetInt :: "nat \<Rightarrow> lvalue \<Rightarrow> (lvalue \<times> lvalue) list \<Rightarrow> (lvalue \<times> lvalue) list" where
  "RawSetInt key value table = AList.update (LNumber (Finite (real key))) value table"

subsection \<open>The key/value store\<close>

record KVStore =
  kv :: "(string \<times> gval) list"

definition NewStore :: KVStore where
  "NewStore = \<lparr>kv = []\<rparr>"

definition Store_Get :: "string \<Rightarrow> KVStore \<Rightarrow> gval \<times> bool" where
  "Store_Get key s = (case map_of (kv s) key of None \<Rightarrow> (GNil, False) | Some value \<Rightarrow> (value, True))"

definition Store_Set :: "string \<Rightarrow> gval \<Rightarrow> KVStore \<Rightarrow> KVStore" where
  "Store_Set key value s = s\<lparr>kv := AList.update key value (kv s)\<rparr>"

definition Store_Delete :: "string \<Rightarrow> KVStore \<Rightarrow> bool \<times> KVStore" where
  "Store_Delete key s =
     (if map_of (kv s) key = None then (False, s)
      else (True, s\<lparr>kv := AList.delete key (kv s)\<rparr>))"

text \<open>\<open>for key := range s.data { keys = append(keys, key) }\<close>: the keys as the map yields them.\<close>

definition Keys :: "KVStore \<Rightarrow> string list" where
  "Keys s = fold (\<lambda>(key, value) keys. keys @ [key]) (kv s) []"

text \<open>
  The module function \<open>sugardb.keys\<close>: \<open>sort.Strings\<close> orders the keys byte by byte,
  which is the lexicographic order of \<open>string\<close>; the table receives them at 1, 2, ...
\<close>

definition sugarKeys :: "KVStore \<Rightarrow> lvalue" where
  "sugarKeys store =
     (let keys = sort (Keys store)
      in LTable (fold (\<lambda>(i, key) table. RawSetInt (i + 1) (LString key) table)
                   (enumerate 0 keys) []))"

subsection \<open>From Lua values to Go values\<close>

text \<open>
  \<open>LValue.String()\<close>: a string is itself; the printing of numbers, tables, functions and
  user data is left to the parameter \<open>fmt\<close>.
\<close>

definition lv_String :: "(lvalue \<Rightarrow> string) \<Rightarrow> lvalue \<Rightarrow> string" where
  "lv_String fmt v =
     (case v of
        LString s \<Rightarrow> s
      | LNil \<Rightarrow> ''nil''
      | LBool b \<Rightarrow> (if b then ''true'' else ''false'')
      | _ \<Rightarrow> fmt v)"

fun luaValueToGo :: "(lvalue \<Rightarrow> string) \<Rightarrow> lvalue \<Rightarrow> gval" where
  "luaValueToGo fmt (LString v) = GString v"
| "luaValueToGo fmt (LNumber v) = GFloat64 v"
| "luaValueToGo fmt (LBool v) = GBool v"
| "luaValueToGo fmt (LTable t) =
     GMap (fold (\<lambda>(key, value) result. AList.update key value result)
             (map (\<lambda>(key, value). (lv_String fmt key, luaValueToGo fmt value)) t) [])"
| "luaValueToGo fmt v = GString (lv_String fmt v)"

definition luaTableToMap :: "(lvalue \<Rightarrow> string) \<Rightarrow> (lvalue \<times> lvalue) list \<Rightarrow> Record" where
  "luaTableToMap fmt t =
     fold (\<lambda>(key, value) result. AList.update key value result)
       (map (\<lambda>(key, value). (lv_String fmt key, luaValueToGo fmt value)) t) []"

subsection \<open>Serving one request (attachRoute)\<close>

text \<open>
  The request as gin hands it over. \<open>req_body\<close> is what \<open>io.ReadAll\<close> returns for the
  body: the bytes or an error.
\<close>

record request =
  req_method :: string
  req_path :: string
  req_raw_query :: string
  req_body :: "error + string"
  req_client_ip :: string
  req_header :: "(string \<times> string list) list"
  req_query :: "(string \<times> string list) list"
  req_params :: "(string \<times> string) list"

text \<open>One or several values of a header or of a query parameter, as the request table holds them.\<close>

definition values_to_lua :: "string list \<Rightarrow> lvalue" where
  "values_to_lua vs =
     (if length vs = 1 then LString (vs ! 0)
      else LTable (fold (\<lambda>(i, v) list. RawSetInt (i + 1) (LString v) list) (enumerate 0 vs) []))"

text \<open>\<open>c.Request.Header[k]\<close>: the nil slice when the header is missing.\<close>

definition header_values :: "(string \<times> string list) list \<Rightarrow> string \<Rightarrow> string list" where
  "header_values h k = (case map_of h k of None \<Rightarrow> [] | Some vs \<Rightarrow> vs)"

definition requestToLuaTable :: "request \<Rightarrow> error + lvalue" where
  "requestToLuaTable c =
     (case req_body c of
        Inl err \<Rightarrow> Inl err
      | Inr body \<Rightarrow>
          (let req = [];
               req = RawSetString ''method'' (LString (req_method c)) req;
               req = RawSetString ''path'' (LString (req_path c)) req;
               req = RawSetString ''raw_query'' (LString (req_raw_query c)) req;
               req = RawSetString ''body'' (LString body) req;
               req = RawSetString ''client_ip'' (LString (req_client_ip c)) req;
               headerKeys = sort (map fst (req_header c));
               headers = fold (\<lambda>k headers.
                             RawSetString k (values_to_lua (header_values (req_header c) k)) headers)
                           headerKeys [];
               req = RawSetString ''headers'' (LTable headers) req;
               query = fold (\<lambda>(k, vs) query. RawSetString k (values_to_lua vs) query)
                         (req_query c) [];
               req = RawSetString ''query'' (LTable query) req;
               params = fold (\<lambda>(k, v) params. RawSetString k (LString v) params)
                          (req_params c) [];
               req = RawSetString ''params'' (LTable params) req
           in Inr (LTable req)))"

text \<open>
  The Lua state of an engine: \<open>world\<close> is everything a script can read and change
  (globals, upvalues, the stores it reaches), \<open>stack\<close> the value stack with its top last.
  A handler is a function of the request table and the world that raises an error or
  returns values, and leaves a world behind.
\<close>

record 'w LState =
  world :: 'w
  stack :: "lvalue list"

type_synonym 'w handler = "lvalue \<Rightarrow> 'w \<Rightarrow> (error + lvalue list) \<times> 'w"

text \<open>
  \<open>L.CallByParam(lua.P{Fn: handler, NRet: nret, Protect: true}, arg)\<close>: one call of the
  handler. An error is returned and nothing is pushed; otherwise exactly \<open>nret\<close> values
  are pushed, missing ones as nil.
\<close>

definition CallByParam :: "'w handler \<Rightarrow> nat \<Rightarrow> lvalue \<Rightarrow> 'w LState \<Rightarrow> error option \<times> 'w LState" where
  "CallByParam fn nret arg L =
     (case fn arg (world L) of
        (Inl err, w) \<Rightarrow> (Some err, L\<lparr>world := w\<rparr>)
      | (Inr rets, w) \<Rightarrow>
          (None, L\<lparr>world := w,
                   stack := stack L @ take nret rets @ replicate (nret - length rets) LNil\<rparr>))"

text \<open>\<open>L.Get(-i)\<close>: the \<open>i\<close>-th value from the top, nil when there is none.\<close>

definition Get_top :: "'w LState \<Rightarrow> nat \<Rightarrow> lvalue" where
  "Get_top L i =
     (if 1 \<le> i \<and> i \<le> length (stack L) then stack L ! (length (stack L) - i) else LNil)"

definition parseLuaResponse ::
  "(float64 \<Rightarrow> 64 word) \<Rightarrow> (lvalue \<Rightarrow> string) \<Rightarrow> 'w LState
     \<Rightarrow> (64 word \<times> gval \<times> (string \<times> string) list) \<times> 'w LState" where
  "parseLuaResponse conv fmt L =
     (let statusValue = Get_top L 3;
          bodyValue = Get_top L 2;
          headersValue = Get_top L 1;
          status = (case statusValue of LNumber n \<Rightarrow> go_int conv n | _ \<Rightarrow> 200);
          body = (case bodyValue of
                    LString v \<Rightarrow> GString v
                  | LTable v \<Rightarrow> GMap (luaTableToMap fmt v)
                  | LBool v \<Rightarrow> GBool v
                  | LNumber v \<Rightarrow> GFloat64 v
                  | LNil \<Rightarrow> GNil
                  | v \<Rightarrow> GString (lv_String fmt v));
          headers = (case headersValue of
                       LTable table \<Rightarrow>
                         fold (\<lambda>(key, value) headers.
                                 case (key, value) of
                                   (LString k, LString v) \<Rightarrow> AList.update k v headers
                                 | _ \<Rightarrow> headers)
                           table []
                     | _ \<Rightarrow> [])
      in ((status, body, headers), L\<lparr>stack := take (length (stack L) - 3) (stack L)\<rparr>))"

text \<open>What the handler does to the gin context, call by call; a status is a Go \<open>int\<close>.\<close>

datatype gin_call =
    Header string string
  | JSON "64 word" gval
  | Status "64 word"
  | String "64 word" string
  | Data "64 word" string string

text \<open>
  The function that \<open>attachRoute\<close> registers for a route, run under the engine's mutex:
  it maps the request and the Lua state to the calls made on the gin context and the Lua
  state left behind. (\<open>main.go\<close> and \<open>internal/server/lua_engine.go\<close> hold the same text.)
\<close>

definition route_handler ::
  "(float64 \<Rightarrow> 64 word) \<Rightarrow> (lvalue \<Rightarrow> string) \<Rightarrow> 'w handler \<Rightarrow> request \<Rightarrow> 'w LState
     \<Rightarrow> gin_call list \<times> 'w LState" where
  "route_handler conv fmt handler c L =
     (case requestToLuaTable c of
        Inl err \<Rightarrow> ([JSON 400 (GMap [(''error'', GString err)])], L)
      | Inr reqTable \<Rightarrow>
          (case CallByParam handler 3 reqTable L of
             (Some err, L) \<Rightarrow> ([JSON 500 (GMap [(''error'', GString err)])], L)
           | (None, L) \<Rightarrow>
               (let ((status, body, headers), L) = parseLuaResponse conv fmt L
                in (map (\<lambda>(k, v). Header k v) headers @
                    (case body of
                       GNil \<Rightarrow> [Status status]
                     | GString typed \<Rightarrow> [String status typed]
                     | GBytes typed \<Rightarrow> [Data status ''application/octet-stream'' typed]
                     | _ \<Rightarrow> [JSON status body]),
                    L))))"

section \<open>The runtime lifecycle (cmd/lunar/main.go, internal/server/router.go)\<close>

text \<open>
  The process as the lifecycle sees it. A runtime and its engine are known by the number
  of the \<open>BuildRuntime\<close> call that made them. \<open>state.mu\<close> is the set of request
  goroutines that hold its read side, and whether its write side is held. Every request
  goroutine and the watcher's goroutine stand at a point of their code; one event is one
  goroutine taking its next step, so a list of events is one interleaving.
\<close>

datatype request_pc =
    NotStarted
  | HasRLock
  | Serving nat
  | Served nat
  | Panicked

datatype reload_pc =
    Watching
  | Built nat
  | HasLock nat
  | Exchanged "nat option"
  | Released "nat option"

datatype log_line =
    ChangeDetected
  | ReloadFailed error

record process =
  runtime :: "nat option"
  rlocks :: "nat set"
  wlock :: bool
  closed_engines :: "nat set"
  engines :: nat
  log_lines :: "log_line list"
  exited :: bool
  faults :: "nat set"
  requests :: "nat \<Rightarrow> request_pc"
  reload :: reload_pc

text \<open>
  \<open>BuildRuntime\<close>: a new engine loads the script (\<open>load\<close> is what \<open>LoadScript\<close>
  returns); when that fails the new engine is closed and the error returned.
\<close>

definition BuildRuntime :: "error option \<Rightarrow> process \<Rightarrow> (error + nat) \<times> process" where
  "BuildRuntime load p =
     (let engine = engines p;
          p = p\<lparr>engines := engine + 1\<rparr>
      in case load of
           Some err \<Rightarrow> (Inl err, p\<lparr>closed_engines := insert engine (closed_engines p)\<rparr>)
         | None \<Rightarrow> (Inr engine, p))"

text \<open>\<open>main\<close> up to the start of the server: a failing first build ends the process.\<close>

definition main_start :: "error option \<Rightarrow> process" where
  "main_start load =
     (let p = \<lparr>runtime = None, rlocks = {}, wlock = False, closed_engines = {}, engines = 0,
               log_lines = [], exited = False, faults = {}, requests = (\<lambda>_. NotStarted),
               reload = Watching\<rparr>
      in case BuildRuntime load p of
           (Inl err, p) \<Rightarrow> p\<lparr>exited := True\<rparr>
         | (Inr initial, p) \<Rightarrow> p\<lparr>runtime := Some initial\<rparr>)"

text \<open>
  The steps of \<open>ServeHTTP\<close> for request \<open>i\<close>: \<open>s.mu.RLock()\<close>, which waits while the write
  side is held; \<open>current := s.runtime\<close>; the work of \<open>current.Router.ServeHTTP\<close> on the
  engine of \<open>current\<close>, in any number of steps, each of which is recorded in \<open>faults\<close>
  if that engine has been closed; and the deferred \<open>s.mu.RUnlock()\<close>.
\<close>

definition ServeHTTP_RLock :: "nat \<Rightarrow> process \<Rightarrow> process option" where
  "ServeHTTP_RLock i p =
     (if requests p i = NotStarted \<and> \<not> wlock p
      then Some (p\<lparr>rlocks := insert i (rlocks p), requests := (requests p)(i := HasRLock)\<rparr>)
      else None)"

definition ServeHTTP_current :: "nat \<Rightarrow> process \<Rightarrow> process option" where
  "ServeHTTP_current i p =
     (if requests p i = HasRLock
      then (case runtime p of
              None \<Rightarrow> Some (p\<lparr>rlocks := rlocks p - {i}, requests := (requests p)(i := Panicked)\<rparr>)
            | Some current \<Rightarrow> Some (p\<lparr>requests := (requests p)(i := Serving current)\<rparr>))
      else None)"

definition ServeHTTP_route :: "nat \<Rightarrow> process \<Rightarrow> process option" where
  "ServeHTTP_route i p =
     (case requests p i of
        Serving current \<Rightarrow>
          Some (if current \<in> closed_engines p then p\<lparr>faults := insert i (faults p)\<rparr> else p)
      | _ \<Rightarrow> None)"

definition ServeHTTP_RUnlock :: "nat \<Rightarrow> process \<Rightarrow> process option" where
  "ServeHTTP_RUnlock i p =
     (case requests p i of
        Serving current \<Rightarrow>
          Some (p\<lparr>rlocks := rlocks p - {i}, requests := (requests p)(i := Served current)\<rparr>)
      | _ \<Rightarrow> None)"

text \<open>
  The watcher's callback up to its call of \<open>Swap\<close>: it logs, builds, and on a failed build
  logs again and returns. The watcher runs one callback at a time.
\<close>

definition reload_callback :: "error option \<Rightarrow> process \<Rightarrow> process option" where
  "reload_callback load p =
     (if reload p = Watching
      then (let p = p\<lparr>log_lines := log_lines p @ [ChangeDetected]\<rparr>
            in case BuildRuntime load p of
                 (Inl err, p) \<Rightarrow> Some (p\<lparr>log_lines := log_lines p @ [ReloadFailed err]\<rparr>)
               | (Inr next, p) \<Rightarrow> Some (p\<lparr>reload := Built next\<rparr>))
      else None)"

text \<open>
  The steps of \<open>Swap(next)\<close>: \<open>s.mu.Lock()\<close>, which waits until no read side and no write
  side is held; \<open>old := s.runtime; s.runtime = next\<close>; \<open>s.mu.Unlock()\<close>; and
  \<open>old.Engine.Close()\<close> when \<open>old\<close> is not nil.
\<close>

definition Swap_Lock :: "process \<Rightarrow> process option" where
  "Swap_Lock p =
     (case reload p of
        Built next \<Rightarrow>
          if rlocks p = {} \<and> \<not> wlock p then Some (p\<lparr>wlock := True, reload := HasLock next\<rparr>)
          else None
      | _ \<Rightarrow> None)"

definition Swap_exchange :: "process \<Rightarrow> process option" where
  "Swap_exchange p =
     (case reload p of
        HasLock next \<Rightarrow> Some (p\<lparr>runtime := Some next, reload := Exchanged (runtime p)\<rparr>)
      | _ \<Rightarrow> None)"

definition Swap_Unlock :: "process \<Rightarrow> process option" where
  "Swap_Unlock p =
     (case reload p of
        Exchanged old \<Rightarrow> Some (p\<lparr>wlock := False, reload := Released old\<rparr>)
      | _ \<Rightarrow> None)"

definition Swap_Close :: "process \<Rightarrow> process option" where
  "Swap_Close p =
     (case reload p of
        Released old \<Rightarrow>
          Some (case old of
                  None \<Rightarrow> p\<lparr>reload := Watching\<rparr>
                | Some engine \<Rightarrow>
                    p\<lparr>closed_engines := insert engine (closed_engines p), reload := Watching\<rparr>)
      | _ \<Rightarrow> None)"

datatype event =
    EvRLock nat
  | EvCurrent nat
  | EvRoute nat
  | EvRUnlock nat
  | EvScriptChanged "error option"
  | EvSwapLock
  | EvSwapExchange
  | EvSwapUnlock
  | EvSwapClose

fun step :: "event \<Rightarrow> process \<Rightarrow> process option" where
  "step (EvRLock i) p = ServeHTTP_RLock i p"
| "step (EvCurrent i) p = ServeHTTP_current i p"
| "step (EvRoute i) p = ServeHTTP_route i p"
| "step (EvRUnlock i) p = ServeHTTP_RUnlock i p"
| "step (EvScriptChanged load) p = reload_callback load p"
| "step EvSwapLock p = Swap_Lock p"
| "step EvSwapExchange p = Swap_exchange p"
| "step EvSwapUnlock p = Swap_Unlock p"
| "step EvSwapClose p = Swap_Close p"

text \<open>An interleaving from a state: \<open>None\<close> when one of its events cannot happen where it stands.\<close>

fun steps :: "event list \<Rightarrow> process \<Rightarrow> process option" where
  "steps [] p = Some p"
| "steps (e # es) p = (case step e p of None \<Rightarrow> None | Some p' \<Rightarrow> steps es p')"

text \<open>
  What holds of every state the process reaches. For the reload in progress: the write side
  of the lock is held exactly between \<open>Lock\<close> and \<open>Unlock\<close>, and then no read side is
  held; the runtime that \<open>Swap\<close> brings is built, open and not yet live; the runtime it has
  taken out is built and no longer live.
\<close>

definition swap_inv :: "process \<Rightarrow> bool" where
  "swap_inv p =
     (case reload p of
        Watching \<Rightarrow> \<not> wlock p
      | Built next \<Rightarrow>
          \<not> wlock p \<and> next < engines p \<and> next \<notin> closed_engines p \<and> runtime p \<noteq> Some next
      | HasLock next \<Rightarrow>
          wlock p \<and> rlocks p = {} \<and> next < engines p \<and> next \<notin> closed_engines p
          \<and> runtime p \<noteq> Some next
      | Exchanged old \<Rightarrow>
          wlock p \<and> rlocks p = {} \<and> runtime p \<noteq> old \<and> (\<forall>r. old = Some r \<longrightarrow> r < engines p)
      | Released old \<Rightarrow>
          \<not> wlock p \<and> runtime p \<noteq> old \<and> (\<forall>r. old = Some r \<longrightarrow> r < engines p))"

text \<open>
  For the whole process: the live runtime exists, is one that was built, and its engine is
  open; every closed engine is one that was built; the read side of the lock is held by
  exactly the requests that stand between \<open>RLock\<close> and \<open>RUnlock\<close>; a request being served
  is served by the live runtime; no request has run on a closed engine or panicked, and
  the process has not exited.
\<close>

definition lifecycle_inv :: "process \<Rightarrow> bool" where
  "lifecycle_inv p =
     ((\<exists>r. runtime p = Some r \<and> r < engines p \<and> r \<notin> closed_engines p)
      \<and> (\<forall>r. r \<in> closed_engines p \<longrightarrow> r < engines p)
      \<and> rlocks p = {i. requests p i = HasRLock \<or> (\<exists>r. requests p i = Serving r)}
      \<and> (\<forall>i r. requests p i = Serving r \<longrightarrow> runtime p = Some r)
      \<and> faults p = {} \<and> (\<forall>i. requests p i \<noteq> Panicked)
      \<and> \<not> exited p
      \<and> swap_inv p)"

section \<open>Records as objects: what cloneRecord copies\<close>

text \<open>
  In Go a \<open>Record\<close> is a reference to a map object, and so is every map or slice nested in
  it. To say what \<open>Insert\<close> and \<open>Query\<close> share with their callers, the same code is read
  once more over a heap of objects: an address is an index into the heap, a new object goes
  to the end, and a value of type \<open>any\<close> is a scalar or the address of a map or slice.
\<close>

type_synonym addr = nat

datatype hval =
    HNil
  | HBool bool
  | HString string
  | HInt "64 word"
  | HFloat64 float64
  | HRef addr

datatype hobj =
    MapObj "(string \<times> hval) list"
  | SliceObj "hval list"

type_synonym heap = "hobj list"

text \<open>The entries of the map object at an address.\<close>

definition entries :: "heap \<Rightarrow> addr \<Rightarrow> (string \<times> hval) list" where
  "entries h a =
     (if a < length h then (case h ! a of MapObj m \<Rightarrow> m | SliceObj xs \<Rightarrow> []) else [])"

text \<open>\<open>m[key] = value\<close> on the map object at \<open>a\<close>.\<close>

definition set_field :: "addr \<Rightarrow> string \<Rightarrow> hval \<Rightarrow> heap \<Rightarrow> heap" where
  "set_field a key value h = h[a := MapObj (AList.update key value (entries h a))]"

text \<open>\<open>make(Record, n)\<close>: a new, empty map object.\<close>

definition new_map :: "heap \<Rightarrow> addr \<times> heap" where
  "new_map h = (length h, h @ [MapObj []])"

definition cloneRecord_h :: "heap \<Rightarrow> addr \<Rightarrow> addr \<times> heap" where
  "cloneRecord_h h record =
     (let (copy, h) = new_map h;
          h = fold (\<lambda>(key, value) h. set_field copy key value h) (entries h record) h
      in (copy, h))"

text \<open>
  The value that an object graph holds, read down to a depth: what JSON encoding, or a
  script walking the tables, sees of it.
\<close>

fun read_val :: "nat \<Rightarrow> heap \<Rightarrow> hval \<Rightarrow> gval" where
  "read_val n h HNil = GNil"
| "read_val n h (HBool b) = GBool b"
| "read_val n h (HString s) = GString s"
| "read_val n h (HInt i) = GInt i"
| "read_val n h (HFloat64 x) = GFloat64 x"
| "read_val 0 h (HRef a) = GNil"
| "read_val (Suc n) h (HRef a) =
     (if a < length h
      then (case h ! a of
              MapObj m \<Rightarrow> GMap (map (\<lambda>(k, v). (k, read_val n h v)) m)
            | SliceObj xs \<Rightarrow> GSlice (map (read_val n h) xs))
      else GNil)"

definition read_record :: "nat \<Rightarrow> heap \<Rightarrow> addr \<Rightarrow> Record" where
  "read_record n h a = map (\<lambda>(k, v). (k, read_val n h v)) (entries h a)"

text \<open>
  \<open>matches\<close> only reads: on objects it is \<open>matches\<close> on the values they hold, read to
  the depth \<open>n\<close> (any depth beyond the nesting of the values reads them whole).
\<close>

definition matches_h ::
  "(string \<Rightarrow> float64 option) \<Rightarrow> nat \<Rightarrow> heap \<Rightarrow> addr \<Rightarrow> addr \<Rightarrow> bool" where
  "matches_h pf n h record criteria =
     matches pf (read_record n h record) (read_record n h criteria)"

text \<open>A heap without dangling references: every address stored in an object is allocated.\<close>

definition refs_of :: "hobj \<Rightarrow> addr list" where
  "refs_of obj =
     concat (map (\<lambda>v. case v of HRef a \<Rightarrow> [a] | _ \<Rightarrow> [])
               (case obj of MapObj m \<Rightarrow> map snd m | SliceObj xs \<Rightarrow> xs))"

definition closed_heap :: "heap \<Rightarrow> bool" where
  "closed_heap h = (\<forall>obj \<in> set h. \<forall>a \<in> set (refs_of obj). a < length h)"

record RStore =
  r_path :: string
  r_data :: "(string \<times> addr list) list"
  r_nextID :: "64 word"

definition records_of_h :: "(string \<times> addr list) list \<Rightarrow> string \<Rightarrow> addr list" where
  "records_of_h d collection = (case map_of d collection of None \<Rightarrow> [] | Some rs \<Rightarrow> rs)"

definition saveLocked_h :: "save_env \<Rightarrow> RStore \<Rightarrow> error option" where
  "saveLocked_h env s =
     (if r_path s = '''' then None
      else case (if env_dir env \<noteq> ''.'' then env_mkdir env else None) of
        Some err \<Rightarrow> Some err
      | None \<Rightarrow>
          (case env_marshal env of
             Some err \<Rightarrow> Some err
           | None \<Rightarrow> env_write env))"

text \<open>\<open>Insert\<close>; the record passed is an address, or nil.\<close>

definition Insert_h ::
  "save_env \<Rightarrow> string \<Rightarrow> addr option \<Rightarrow> RStore \<Rightarrow> heap
     \<Rightarrow> (addr option \<times> error option) \<times> RStore \<times> heap" where
  "Insert_h env collection record s h =
     (if collection = '''' then ((None, Some ''collection is required''), s, h)
      else
        let (record, h) = (case record of None \<Rightarrow> new_map h | Some a \<Rightarrow> (a, h));
            (copy, h) = cloneRecord_h h record;
            (s, h) =
              (if map_of (entries h copy) ''id'' = None
               then (s\<lparr>r_nextID := r_nextID s + 1\<rparr>, set_field copy ''id'' (HInt (r_nextID s)) h)
               else (s, h));
            s = s\<lparr>r_data :=
                    AList.update collection (records_of_h (r_data s) collection @ [copy]) (r_data s)\<rparr>
        in case saveLocked_h env s of
             Some err \<Rightarrow> ((None, Some err), s, h)
           | None \<Rightarrow> (let (result, h) = cloneRecord_h h copy in ((Some result, None), s, h)))"

text \<open>\<open>Query\<close>; the loop appends a clone of every matching record to the result.\<close>

fun Query_loop_h ::
  "(string \<Rightarrow> float64 option) \<Rightarrow> nat \<Rightarrow> addr \<Rightarrow> addr list \<Rightarrow> heap \<Rightarrow> addr list \<times> heap" where
  "Query_loop_h pf n criteria [] h = ([], h)"
| "Query_loop_h pf n criteria (record # rest) h =
     (if matches_h pf n h record criteria
      then (let (copy, h) = cloneRecord_h h record;
                (result, h) = Query_loop_h pf n criteria rest h
            in (copy # result, h))
      else Query_loop_h pf n criteria rest h)"

definition Query_h ::
  "(string \<Rightarrow> float64 option) \<Rightarrow> nat \<Rightarrow> string \<Rightarrow> addr \<Rightarrow> RStore \<Rightarrow> heap
     \<Rightarrow> (addr list \<times> error option) \<times> RStore \<times> heap" where
  "Query_h pf n collection criteria s h =
     (if collection = '''' then (([], Some ''collection is required''), s, h)
      else
        let records = records_of_h (r_data s) collection;
            (result, h) = Query_loop_h pf n criteria records h
        in ((result, None), s, h))"

text \<open>
  The store of values that a store of objects holds: every record read to the depth \<open>n\<close>.
  A store is valid on a heap when every record in it is allocated.
\<close>

definition abs_store :: "nat \<Rightarrow> heap \<Rightarrow> RStore \<Rightarrow> Store" where
  "abs_store n h s =
     \<lparr>path = r_path s,
      data = map (\<lambda>(collection, records). (collection, map (read_record n h) records)) (r_data s),
      nextID = r_nextID s\<rparr>"

definition valid_store :: "heap \<Rightarrow> RStore \<Rightarrow> bool" where
  "valid_store h s = (\<forall>(collection, records) \<in> set (r_data s). \<forall>r \<in> set records. r < length h)"

subsection \<open>An example\<close>

text \<open>
  A caller's record (at address 1) with a nested map (at address 0), and the object that
  an insert of it stores.
\<close>

definition crew_heap :: heap where
  "crew_heap =
     [MapObj [(''callsign'', HString ''Eagle'')],
      MapObj [(''name'', HString ''Ada''), (''craft'', HRef 0)]]"

definition stored_ada :: hobj where
  "stored_ada = MapObj [(''name'', HString ''Ada''), (''craft'', HRef 0), (''id'', HInt 1)]"

section \<open>Properties of the numbers\<close>

lemma floorlog_small: "n < 2 ^ 53 \<Longrightarrow> floorlog 2 n \<le> 53"
  by (rule floorlog_leI) simp_all

lemma floorlog_2_eqI: "2 ^ k \<le> n \<Longrightarrow> n < 2 ^ Suc k \<Longrightarrow> floorlog 2 n = Suc k"
  using floorlog_ge_SucI [of 2 k n] floorlog_leI [of n 2 "Suc k"] by simp

lemma float64_of_int_exact:
  assumes "\<bar>i\<bar> \<le> 2 ^ 53"
  shows "float64_of_int i = Finite (real_of_int i)"
proof (cases "\<bar>i\<bar> = 2 ^ 53")
  case True
  then have n: "nat \<bar>i\<bar> = 2 ^ 53" by simp
  have fl: "floorlog 2 (2 ^ 53 :: nat) = 54" using floorlog_2_eqI [of 53 "2 ^ 53"] by simp
  have "sgn i * 2 ^ 53 = i" using True by (cases "0 \<le> i") simp_all
  then show ?thesis
    unfolding float64_of_int_def n fl Let_def by simp
next
  case False
  with assms have "nat \<bar>i\<bar> < 2 ^ 53" by simp
  then have "floorlog 2 (nat \<bar>i\<bar>) - 53 = 0" using floorlog_small by simp
  moreover have "real_of_int (sgn i) * \<bar>real_of_int i\<bar> = real_of_int i"
    by (cases "0 \<le> i") (simp_all add: sgn_if)
  ultimately show ?thesis
    by (simp add: float64_of_int_def Let_def)
qed

lemma float64_of_int_2_53_1: "float64_of_int 9007199254740993 = Finite 9007199254740992"
proof -
  have "floorlog 2 (9007199254740993 :: nat) = 54"
    using floorlog_2_eqI [of 53 9007199254740993] by simp
  then show ?thesis by (simp add: float64_of_int_def Let_def)
qed

lemma float64_of_int_2_53_3: "float64_of_int 9007199254740995 = Finite 9007199254740996"
proof -
  have "floorlog 2 (9007199254740995 :: nat) = 54"
    using floorlog_2_eqI [of 53 9007199254740995] by simp
  then show ?thesis by (simp add: float64_of_int_def Let_def)
qed

lemma float64_of_int_max: "float64_of_int 9223372036854775807 = Finite 9223372036854775808"
proof -
  have "floorlog 2 (9223372036854775807 :: nat) = 63"
    using floorlog_2_eqI [of 62 9223372036854775807] by simp
  then show ?thesis by (simp add: float64_of_int_def Let_def)
qed

lemma go_int_in_range:
  assumes "- (2 ^ 63) \<le> (if 0 \<le> x then \<lfloor>x\<rfloor> else \<lceil>x\<rceil>)" and "(if 0 \<le> x then \<lfloor>x\<rfloor> else \<lceil>x\<rceil>) < 2 ^ 63"
  shows "sint (go_int conv (Finite x)) = (if 0 \<le> x then \<lfloor>x\<rfloor> else \<lceil>x\<rceil>)"
  using assms by (simp add: go_int_def Let_def signed_of_int signed_take_bit_int_eq_self)

section \<open>Properties of the document store\<close>

lemma update_fresh: "k \<notin> fst ` set al \<Longrightarrow> AList.update k v al = al @ [(k, v)]"
  by (induction al) auto

lemma fold_update_fresh:
  "distinct (map fst xs) \<Longrightarrow> fst ` set xs \<inter> fst ` set acc = {} \<Longrightarrow>
   fold (\<lambda>(key, value) copy. AList.update key value copy) xs acc = acc @ xs"
proof (induction xs arbitrary: acc)
  case Nil
  then show ?case by simp
next
  case (Cons x xs)
  obtain k v where x: "x = (k, v)" by (cases x)
  from Cons.prems have fresh: "k \<notin> fst ` set acc" by (auto simp: x)
  have "fst ` set xs \<inter> fst ` set (acc @ [(k, v)]) = {}"
    using Cons.prems by (auto simp: x)
  with Cons.IH [of "acc @ [(k, v)]"] Cons.prems show ?case
    by (simp add: x update_fresh [OF fresh])
qed

lemma cloneRecord_wf: "wf_map record \<Longrightarrow> cloneRecord record = record"
  using fold_update_fresh [of "record" "[]"] by (simp add: cloneRecord_def wf_map_def)

lemma records_of_update [simp]: "records_of (AList.update c rs d) c = rs"
  by (simp add: records_of_def update_conv')

lemma Update_loop_eq:
  "Update_loop pf criteria updates rs =
     (map (\<lambda>record. if matches pf record criteria then apply_updates updates record else record) rs,
      int (length (filter (\<lambda>record. matches pf record criteria) rs)))"
  by (induction rs) (auto split: prod.splits)

lemma Delete_loop_eq:
  "Delete_loop pf criteria rs =
     (filter (\<lambda>record. \<not> matches pf record criteria) rs,
      int (length (filter (\<lambda>record. matches pf record criteria) rs)))"
  by (induction rs) (auto split: prod.splits)

lemma matches_loop_iff:
  "matches_loop pf record criteria \<longleftrightarrow>
     (\<forall>(key, expected) \<in> set criteria.
        \<exists>actual. map_of record key = Some actual \<and> valuesEqual pf actual expected)"
  by (induction criteria) (auto split: option.splits if_splits)

lemma matches_iff:
  "matches pf record criteria \<longleftrightarrow>
     (\<forall>(key, expected) \<in> set criteria.
        \<exists>actual. map_of record key = Some actual \<and> valuesEqual pf actual expected)"
  by (cases criteria) (auto simp: matches_def matches_loop_iff simp del: matches_loop.simps)

lemma Insert_snd:
  "collection \<noteq> '''' \<Longrightarrow>
   snd (Insert env collection record s) =
     (if map_of (cloneRecord record) ''id'' = None
      then s\<lparr>nextID := nextID s + 1,
             data := AList.update collection
               (records_of (data s) collection @ [AList.update ''id'' (GInt (nextID s)) (cloneRecord record)])
               (data s)\<rparr>
      else s\<lparr>data := AList.update collection (records_of (data s) collection @ [cloneRecord record]) (data s)\<rparr>)"
  by (simp add: Insert_def Let_def split: option.splits)

lemma Insert_fst:
  "collection \<noteq> '''' \<Longrightarrow>
   fst (Insert env collection record s) =
     (case saveLocked env s of
        Some err \<Rightarrow> ([], Some err)
      | None \<Rightarrow>
          (cloneRecord (if map_of (cloneRecord record) ''id'' = None
             then AList.update ''id'' (GInt (nextID s)) (cloneRecord record)
             else cloneRecord record), None))"
proof -
  assume c: "collection \<noteq> []"
  have sv: "\<And>d n. saveLocked env (s\<lparr>nextID := n, data := d\<rparr>) = saveLocked env s"
    "\<And>d. saveLocked env (s\<lparr>data := d\<rparr>) = saveLocked env s"
    by (simp_all add: saveLocked_def)
  show ?thesis
    by (cases "map_of (cloneRecord record) [CHR 0x69, CHR 0x64]"; cases "saveLocked env s")
      (simp_all add: Insert_def Let_def c sv)
qed

lemma stored_record_eq:
  "collection \<noteq> '''' \<Longrightarrow>
   stored_record env collection record s =
     (if map_of (cloneRecord record) ''id'' = None
      then AList.update ''id'' (GInt (nextID s)) (cloneRecord record)
      else cloneRecord record)"
  by (simp add: stored_record_def Insert_snd)

lemma wf_map_update: "wf_map m \<Longrightarrow> wf_map (AList.update k v m)"
  by (simp add: wf_map_def distinct_update)

lemma issued_by_length: "length (issued_by operation s) \<le> 1"
  by (cases operation) (auto split: option.splits)

lemma issued_by_cases: "issued_by operation s = [] \<or> issued_by operation s = [nextID s]"
  by (cases operation) (auto simp: assigned_id_def split: option.splits)

lemma nextID_apply_op:
  "nextID (apply_op pf operation s) = nextID s + of_nat (length (issued_by operation s))"
proof (cases operation)
  case (OpQuery c crit)
  then show ?thesis by (simp add: Query_def)
next
  case (OpInsert env c r)
  then show ?thesis
    by (cases "c = ''''") (simp_all add: Insert_snd assigned_id_def, simp add: Insert_def)
next
  case (OpUpdate env c crit u)
  then show ?thesis
    by (simp add: Update_def Let_def split: prod.splits option.splits)
next
  case (OpDelete env c crit)
  then show ?thesis
    by (simp add: Delete_def Let_def split: prod.splits option.splits)
qed

lemma nextID_run: "nextID (run pf ops s) = nextID s + of_nat (length (issued pf ops s))"
  by (induction ops arbitrary: s) (simp_all add: nextID_apply_op)

lemma issued_upto: "\<exists>k. issued pf ops s = map (\<lambda>i. nextID s + of_nat i) [0..<k]"
proof (induction ops arbitrary: s)
  case Nil
  have "issued pf [] s = map (\<lambda>i. nextID s + of_nat i) [0..<0]" by simp
  then show ?case ..
next
  case (Cons operation ops)
  define xs where "xs = issued_by operation s"
  define k where "k = length xs"
  define s' where "s' = apply_op pf operation s"
  obtain m where m: "issued pf ops s' = map (\<lambda>i. nextID s' + of_nat i) [0..<m]"
    using Cons.IH by blast
  have xs: "xs = map (\<lambda>i. nextID s + of_nat i) [0..<k]"
    using issued_by_cases [of operation s] unfolding k_def xs_def by auto
  have next': "nextID s' = nextID s + of_nat k"
    unfolding s'_def k_def xs_def by (rule nextID_apply_op)
  have "map (\<lambda>i. nextID s' + of_nat i) [0..<m] =
      map (\<lambda>i. nextID s + of_nat i) (map (\<lambda>i. i + k) [0..<m])"
    by (simp add: next' comp_def ac_simps)
  also have "map (\<lambda>i. i + k) [0..<m] = [k..<k + m]"
    by (simp add: map_add_upt add.commute)
  finally have rest: "issued pf ops s' = map (\<lambda>i. nextID s + of_nat i) [k..<k + m]"
    unfolding m .
  have "issued pf (operation # ops) s = xs @ issued pf ops s'"
    by (simp add: xs_def s'_def)
  also have "\<dots> = map (\<lambda>i. nextID s + of_nat i) ([0..<k] @ [k..<k + m])"
    unfolding rest by (simp only: map_append) (simp only: xs [symmetric])
  also have "[0..<k] @ [k..<k + m] = [0..<k + m]"
    by (rule upt_add_eq_append [symmetric]) simp
  finally show ?case ..
qed

lemma issued_consecutive:
  "issued pf ops s = map (\<lambda>i. nextID s + of_nat i) [0..<length (issued pf ops s)]"
proof -
  obtain k where k: "issued pf ops s = map (\<lambda>i. nextID s + of_nat i) [0..<k]"
    using issued_upto by blast
  then have "length (issued pf ops s) = k" by simp
  with k show ?thesis by simp
qed

lemma sint_add_nat:
  assumes "sint n + int i < 2 ^ 63"
  shows "sint ((n :: 64 word) + of_nat i) = sint n + int i"
proof -
  have lo: "- (2 ^ 63) \<le> sint n" using sint_ge [of n] by simp
  have "n + of_nat i = word_of_int (sint n + int i)" by simp
  then have "sint (n + of_nat i) = signed_take_bit 63 (sint n + int i)"
    by (simp only: sint_sbintrunc') simp
  also have "\<dots> = sint n + int i"
    using lo assms by (intro signed_take_bit_int_eq_self) simp_all
  finally show ?thesis .
qed

lemma consecutive_sorted:
  assumes "sint n + int k \<le> 2 ^ 63"
  shows "sorted_wrt (<s) (map (\<lambda>i. (n :: 64 word) + of_nat i) [0..<k])"
proof -
  have "n + of_nat i <s n + of_nat j" if "i < j" "j < k" for i j
  proof -
    from that assms have "sint n + int i < 2 ^ 63" "sint n + int j < 2 ^ 63" by simp_all
    with that show ?thesis by (simp add: word_sless_alt sint_add_nat)
  qed
  then show ?thesis by (simp add: sorted_wrt_map sorted_wrt_iff_nth_less)
qed

lemma of_nat_64_inj:
  assumes "i < 2 ^ 64" "j < 2 ^ 64" "(of_nat i :: 64 word) = of_nat j"
  shows "i = j"
proof -
  from assms(3) have "unat (of_nat i :: 64 word) = unat (of_nat j :: 64 word)"
    by (rule arg_cong)
  then have "i mod 2 ^ 64 = j mod 2 ^ 64"
    unfolding unat_of_nat by simp
  with assms(1,2) show ?thesis by (simp only: mod_less)
qed

lemma consecutive_distinct:
  assumes "k \<le> 2 ^ 64"
  shows "distinct (map (\<lambda>i. (n :: 64 word) + of_nat i) [0..<k])"
proof -
  have "i = j" if "i < k" "j < k" "(of_nat i :: 64 word) = of_nat j" for i j
  proof -
    from that(1,2) assms have "i < 2 ^ 64" "j < 2 ^ 64" by linarith+
    then show ?thesis using that(3) by (rule of_nat_64_inj)
  qed
  then show ?thesis unfolding distinct_map inj_on_def by auto
qed

lemma maxID_records_ge: "m \<le>s maxID_records conv pf rs m"
proof (induction rs arbitrary: m)
  case Nil
  then show ?case by simp
next
  case (Cons r rs)
  define m' where "m' = (case numberValue pf (index r [CHR 0x69, CHR 0x64]) of
          Some value \<Rightarrow> if m <s go_int conv value then go_int conv value else m
        | None \<Rightarrow> m)"
  have "sint m \<le> sint m'" by (simp add: m'_def word_sless_alt split: option.splits)
  also have "sint m' \<le> sint (maxID_records conv pf rs m')"
    using Cons.IH [of m'] by (simp add: word_sle_eq)
  finally show ?case by (simp add: m'_def word_sle_eq)
qed

lemma deepEqual_scalar:
  "scalar left \<Longrightarrow> nan_free left \<Longrightarrow> deepEqual left right \<longleftrightarrow> left = right"
  by (cases left; cases right) (auto simp: scalar_def float64_eq_def)

lemma deepEqual_refl: "wf_val v \<Longrightarrow> nan_free v \<Longrightarrow> deepEqual v v"
proof (induction v)
  case (GSlice xs)
  then show ?case by (auto simp: list_all_iff list_all2_same)
next
  case (GMap m)
  have "case map_of m k of None \<Rightarrow> False | Some w \<Rightarrow> deepEqual v w" if "(k, v) \<in> set m" for k v
  proof -
    from GMap.prems that have "map_of m k = Some v" by (simp add: wf_map_def)
    moreover from GMap.prems that have "wf_val v" "nan_free v" by (auto simp: list_all_iff)
    with GMap.IH that have "deepEqual v v" by fastforce
    ultimately show ?thesis by simp
  qed
  then show ?case by (auto simp: list_all_iff)
qed (simp_all add: float64_eq_def)

lemma maxID_records_fold:
  "sint (maxID_records conv pf rs m) =
     fold max (map (\<lambda>value. sint (go_int conv value)) (record_ids pf rs)) (sint m)"
  by (induction rs arbitrary: m)
    (auto simp: record_ids_def max_def word_sless_alt split: option.splits)

lemma maxID_collections_fold:
  "sint (maxID_collections conv pf d m) =
     fold max (map (\<lambda>value. sint (go_int conv value)) (record_ids pf (concat (map snd d)))) (sint m)"
  by (induction d arbitrary: m) (auto simp: maxID_records_fold record_ids_def)

lemma maxID_Max:
  "sint (maxID conv pf s) =
     Max (insert 0 ((\<lambda>value. sint (go_int conv value)) ` set (existing_ids pf (data s))))"
proof -
  have "sint (maxID conv pf s) =
      fold max (map (\<lambda>value. sint (go_int conv value)) (existing_ids pf (data s))) 0"
    by (simp add: maxID_def maxID_collections_fold existing_ids_def file_records_def record_ids_def)
  also have "\<dots> = Max (set (0 # map (\<lambda>value. sint (go_int conv value)) (existing_ids pf (data s))))"
    by (rule Max.set_eq_fold [symmetric])
  finally show ?thesis by simp
qed

lemma Open_Payload:
  "p \<noteq> '''' \<Longrightarrow>
   Open conv pf p (Payload d) =
     Opened \<lparr>path = p, data = d,
             nextID = maxID conv pf \<lparr>path = p, data = d, nextID = 1\<rparr> + 1\<rparr>"
  by (simp add: Open_def)

lemma existing_id_le:
  assumes "value \<in> set (existing_ids pf (data s))"
  shows "sint (go_int conv value) \<le> sint (maxID conv pf s)"
  unfolding maxID_Max using assms by (intro Max_ge) auto

lemma maxID_nonneg: "0 \<le> sint (maxID conv pf s)"
  unfolding maxID_Max by (intro Max_ge) auto

lemma deepEqual_GInt: "deepEqual v (GInt n) \<Longrightarrow> v = GInt n"
  by (cases v) simp_all

lemma trunc_less: "x < real_of_int (if 0 \<le> x then \<lfloor>x\<rfloor> else \<lceil>x\<rceil>) + 1"
proof (cases "0 \<le> x")
  case True
  then show ?thesis by simp
next
  case False
  have "x \<le> real_of_int \<lceil>x\<rceil>" by (rule le_of_int_ceiling)
  also have "\<dots> < real_of_int \<lceil>x\<rceil> + 1" by simp
  finally show ?thesis using False by simp
qed

lemma float64_not_next:
  assumes m: "sint (go_int conv value) \<le> m" and m53: "m < 2 ^ 53" and m0: "0 \<le> m"
  shows "\<not> float64_eq value (float64_of_int (m + 1))"
proof -
  have next_exact: "float64_of_int (m + 1) = Finite (real_of_int (m + 1))"
    using m53 m0 by (intro float64_of_int_exact) simp
  show ?thesis
  proof (cases "value")
    case (Finite x)
    define t where "t = (if 0 \<le> x then \<lfloor>x\<rfloor> else \<lceil>x\<rceil>)"
    show ?thesis
    proof (cases "- (2 ^ 63) \<le> t \<and> t < 2 ^ 63")
      case True
      then have "sint (go_int conv (Finite x)) = t"
        unfolding t_def by (intro go_int_in_range) simp_all
      with m Finite have "t \<le> m" by simp
      then have "real_of_int t + 1 \<le> real_of_int (m + 1)" by simp
      moreover have "x < real_of_int t + 1"
        unfolding t_def by (rule trunc_less)
      ultimately have "x < real_of_int (m + 1)" by simp
      then show ?thesis by (simp add: Finite next_exact float64_eq_def)
    next
      case False
      then consider "t < - (2 ^ 63)" | "2 ^ 63 \<le> t" by linarith
      then have "x \<noteq> real_of_int (m + 1)"
      proof cases
        case 1
        have "x < 0"
        proof (rule ccontr)
          assume "\<not> x < 0"
          then have "0 \<le> t" unfolding t_def by simp
          with 1 show False by simp
        qed
        with m0 show ?thesis by simp
      next
        case 2
        have pos: "0 \<le> x"
        proof (rule ccontr)
          assume "\<not> 0 \<le> x"
          then have "t \<le> 0" unfolding t_def by (simp add: ceiling_le_zero)
          with 2 show False by simp
        qed
        then have "real_of_int t \<le> x" unfolding t_def by simp
        moreover from 2 have "(2 :: real) ^ 63 \<le> real_of_int t"
          by (metis of_int_le_iff of_int_numeral of_int_power)
        moreover have "real_of_int (m + 1) < 2 ^ 63" using m53 by simp
        ultimately show ?thesis by linarith
      qed
      then show ?thesis by (simp add: Finite next_exact float64_eq_def)
    qed
  qed (simp_all add: next_exact float64_eq_def)
qed

lemma not_in_file:
  assumes r: "r \<in> set (file_records (data s))" and v: "map_of r ''id'' = Some v"
    and small: "sint (maxID conv pf s) < 2 ^ 53"
  shows "\<not> valuesEqual pf v (GInt (maxID conv pf s + 1))"
proof (cases "numberValue pf v")
  case None
  then have "v \<noteq> GInt n" for n by auto
  with None show ?thesis
    by (auto simp: valuesEqual_def dest: deepEqual_GInt)
next
  case (Some x)
  from v have "index r ''id'' = v" by (simp add: index_def)
  with r Some have "x \<in> set (existing_ids pf (data s))"
    by (force simp: existing_ids_def record_ids_def)
  then have le: "sint (go_int conv x) \<le> sint (maxID conv pf s)" by (rule existing_id_le)
  have "sint (maxID conv pf s + 1) = sint (maxID conv pf s) + 1"
    using sint_add_nat [of "maxID conv pf s" 1] small by simp
  with float64_not_next [OF le small maxID_nonneg] Some show ?thesis
    by (simp add: valuesEqual_def)
qed

lemma assigned_id_stored:
  "assigned_id collection record s = Some n \<Longrightarrow>
   map_of (stored_record env collection record s) ''id'' = Some (GInt n)"
  by (auto simp: assigned_id_def stored_record_eq update_conv' split: if_splits)

lemma exact_number_value:
  assumes "exact_number pf v"
  shows "\<exists>x. numberValue pf v = Some (Finite x) \<and> numeric_value pf v = Some x"
proof (cases v)
  case (GInt i)
  with assms show ?thesis
    by (simp add: exact_number_def numeric_value_def float64_of_int_exact)
next
  case (GInt64 i)
  with assms show ?thesis
    by (simp add: exact_number_def numeric_value_def float64_of_int_exact)
next
  case (GFloat64 x)
  with assms show ?thesis
    by (cases x) (simp_all add: exact_number_def numeric_value_def)
next
  case (GFloat32 x)
  with assms show ?thesis
    by (cases x) (simp_all add: exact_number_def numeric_value_def)
next
  case (GJsonNumber number)
  with assms show ?thesis
    by (auto simp: exact_number_def numeric_value_def split: option.splits float64.splits)
qed (insert assms, simp_all add: exact_number_def)

lemma valuesEqual_exact:
  assumes "exact_number pf left" and "exact_number pf right"
  shows "valuesEqual pf left right \<longleftrightarrow> numeric_value pf left = numeric_value pf right"
proof -
  obtain x where x: "numberValue pf left = Some (Finite x)" "numeric_value pf left = Some x"
    using exact_number_value [OF assms(1)] by blast
  obtain y where y: "numberValue pf right = Some (Finite y)" "numeric_value pf right = Some y"
    using exact_number_value [OF assms(2)] by blast
  show ?thesis by (simp add: valuesEqual_def x y float64_eq_def)
qed

lemma sless_succ: "(n :: 64 word) <s n + 1 \<longleftrightarrow> n \<noteq> 2 ^ 63 - 1"
proof (cases "n = 2 ^ 63 - 1")
  case True
  then show ?thesis by (simp add: word_sless_alt)
next
  case False
  have "sint n \<le> 2 ^ 63 - 1" using sint_lt [of n] by simp
  moreover have "sint n \<noteq> 2 ^ 63 - 1"
  proof
    assume "sint n = 2 ^ 63 - 1"
    then have "word_of_int (sint n) = (word_of_int (2 ^ 63 - 1) :: 64 word)" by simp
    then have "n = 2 ^ 63 - 1" by simp
    with False show False by simp
  qed
  ultimately have "sint n + int 1 < 2 ^ 63" by simp
  then have "sint (n + of_nat 1) = sint n + int 1" by (rule sint_add_nat)
  with False show ?thesis by (simp add: word_sless_alt)
qed

lemma counter_small:
  assumes "0 <s m + 1" and "m + 1 \<le>s 2 ^ 53" and "0 \<le> sint (m :: 64 word)"
  shows "sint m < 2 ^ 53"
proof (cases "m = 2 ^ 63 - 1")
  case True
  with assms(1) show ?thesis by (simp add: word_sless_alt)
next
  case False
  then have "m <s m + 1" by (simp add: sless_succ)
  with assms(2) show ?thesis by (simp add: word_sless_alt word_sle_eq)
qed

section \<open>The invariant of the lifecycle\<close>

lemma lifecycle_invI:
  assumes "runtime p = Some r" "r < engines p" "r \<notin> closed_engines p"
    and "\<And>c. c \<in> closed_engines p \<Longrightarrow> c < engines p"
    and "\<And>i. i \<in> rlocks p \<longleftrightarrow> requests p i = HasRLock \<or> (\<exists>r'. requests p i = Serving r')"
    and "\<And>i r'. requests p i = Serving r' \<Longrightarrow> r' = r"
    and "faults p = {}" "\<And>i. requests p i \<noteq> Panicked" "\<not> exited p"
    and "swap_inv p"
  shows "lifecycle_inv p"
  unfolding lifecycle_inv_def
proof (intro conjI)
  show "\<exists>r. runtime p = Some r \<and> r < engines p \<and> r \<notin> closed_engines p"
    using assms(1-3) by blast
  show "\<forall>r. r \<in> closed_engines p \<longrightarrow> r < engines p" using assms(4) by blast
  show "rlocks p = {i. requests p i = HasRLock \<or> (\<exists>r. requests p i = Serving r)}"
    using assms(5) by blast
  show "\<forall>i r. requests p i = Serving r \<longrightarrow> runtime p = Some r"
    using assms(1,6) by blast
  show "faults p = {}" by (rule assms(7))
  show "\<forall>i. requests p i \<noteq> Panicked" using assms(8) by blast
  show "\<not> exited p" by (rule assms(9))
qed (rule assms(10))

lemma lifecycle_invE:
  assumes "lifecycle_inv p"
  obtains r where "runtime p = Some r" "r < engines p" "r \<notin> closed_engines p"
    and "\<And>c. c \<in> closed_engines p \<Longrightarrow> c < engines p"
    and "\<And>i. i \<in> rlocks p \<longleftrightarrow> requests p i = HasRLock \<or> (\<exists>r'. requests p i = Serving r')"
    and "\<And>i r'. requests p i = Serving r' \<Longrightarrow> r' = r"
    and "faults p = {}" "\<And>i. requests p i \<noteq> Panicked" "\<not> exited p"
    and "swap_inv p"
proof -
  from assms obtain r where r: "runtime p = Some r" "r < engines p" "r \<notin> closed_engines p"
    unfolding lifecycle_inv_def by blast
  have l: "rlocks p = {i. requests p i = HasRLock \<or> (\<exists>r. requests p i = Serving r)}"
    using assms unfolding lifecycle_inv_def by blast
  have s: "\<forall>i r. requests p i = Serving r \<longrightarrow> runtime p = Some r"
    using assms unfolding lifecycle_inv_def by blast
  show thesis
  proof (rule that [of r])
    show "runtime p = Some r" "r < engines p" "r \<notin> closed_engines p" by (rule r)+
    show "\<And>c. c \<in> closed_engines p \<Longrightarrow> c < engines p"
      using assms unfolding lifecycle_inv_def by blast
    show "\<And>i. i \<in> rlocks p \<longleftrightarrow> requests p i = HasRLock \<or> (\<exists>r'. requests p i = Serving r')"
      unfolding l by simp
    show "\<And>i r'. requests p i = Serving r' \<Longrightarrow> r' = r"
      using s r(1) by simp
    show "faults p = {}" "\<And>i. requests p i \<noteq> Panicked" "\<not> exited p" "swap_inv p"
      using assms unfolding lifecycle_inv_def by blast+
  qed
qed

lemma inv_main_start: "lifecycle_inv (main_start None)"
  by (simp add: lifecycle_inv_def swap_inv_def main_start_def BuildRuntime_def)

lemma inv_RLock:
  assumes "lifecycle_inv p" and "ServeHTTP_RLock i p = Some p'"
  shows "lifecycle_inv p'"
proof -
  from assms(1) show ?thesis
  proof (rule lifecycle_invE)
    fix r
    assume h: "runtime p = Some r" "r < engines p" "r \<notin> closed_engines p"
      "\<And>c. c \<in> closed_engines p \<Longrightarrow> c < engines p"
      "\<And>i. i \<in> rlocks p \<longleftrightarrow> requests p i = HasRLock \<or> (\<exists>r'. requests p i = Serving r')"
      "\<And>i r'. requests p i = Serving r' \<Longrightarrow> r' = r"
      "faults p = {}" "\<And>i. requests p i \<noteq> Panicked" "\<not> exited p" "swap_inv p"
    from assms(2) have pc: "requests p i = NotStarted" and w: "\<not> wlock p"
      and p: "p' = p\<lparr>rlocks := insert i (rlocks p), requests := (requests p)(i := HasRLock)\<rparr>"
      by (auto simp: ServeHTTP_RLock_def split: if_splits)
    show ?thesis
    proof (rule lifecycle_invI [of p' r])
      show "runtime p' = Some r"
        using h(1) by (simp add: p)
      show "r < engines p'"
        using h(2) by (simp add: p)
      show "r \<notin> closed_engines p'"
        using h(3) by (simp add: p)
      show "\<And>c. c \<in> closed_engines p' \<Longrightarrow> c < engines p'"
        using h(4) by (simp add: p)
      show "\<And>j. j \<in> rlocks p' \<longleftrightarrow> requests p' j = HasRLock \<or> (\<exists>r'. requests p' j = Serving r')"
        using h(5) by (simp add: p)
      show "\<And>j r'. requests p' j = Serving r' \<Longrightarrow> r' = r"
        using h(6) by (simp add: p split: if_splits)
      show "faults p' = {}"
        using h(7) by (simp add: p)
      show "\<And>j. requests p' j \<noteq> Panicked"
        using h(8) by (simp add: p)
      show "\<not> exited p'"
        using h(9) by (simp add: p)
      show "swap_inv p'"
        using h(10) w by (cases "reload p") (simp_all add: p swap_inv_def)
    qed
  qed
qed

lemma inv_current:
  assumes "lifecycle_inv p" and "ServeHTTP_current i p = Some p'"
  shows "lifecycle_inv p'"
proof -
  from assms(1) show ?thesis
  proof (rule lifecycle_invE)
    fix r
    assume h: "runtime p = Some r" "r < engines p" "r \<notin> closed_engines p"
      "\<And>c. c \<in> closed_engines p \<Longrightarrow> c < engines p"
      "\<And>i. i \<in> rlocks p \<longleftrightarrow> requests p i = HasRLock \<or> (\<exists>r'. requests p i = Serving r')"
      "\<And>i r'. requests p i = Serving r' \<Longrightarrow> r' = r"
      "faults p = {}" "\<And>i. requests p i \<noteq> Panicked" "\<not> exited p" "swap_inv p"
    from assms(2) h(1) have pc: "requests p i = HasRLock"
      and p: "p' = p\<lparr>requests := (requests p)(i := Serving r)\<rparr>"
      by (auto simp: ServeHTTP_current_def split: if_splits)
    show ?thesis
    proof (rule lifecycle_invI [of p' r])
      show "runtime p' = Some r"
        using h(1) by (simp add: p)
      show "r < engines p'"
        using h(2) by (simp add: p)
      show "r \<notin> closed_engines p'"
        using h(3) by (simp add: p)
      show "\<And>c. c \<in> closed_engines p' \<Longrightarrow> c < engines p'"
        using h(4) by (simp add: p)
      show "\<And>j. j \<in> rlocks p' \<longleftrightarrow> requests p' j = HasRLock \<or> (\<exists>r'. requests p' j = Serving r')"
        using h(5) pc by (auto simp: p)
      show "\<And>j r'. requests p' j = Serving r' \<Longrightarrow> r' = r"
        using h(6) by (simp add: p split: if_splits)
      show "faults p' = {}"
        using h(7) by (simp add: p)
      show "\<And>j. requests p' j \<noteq> Panicked"
        using h(8) by (simp add: p)
      show "\<not> exited p'"
        using h(9) by (simp add: p)
      show "swap_inv p'"
        using h(10) by (cases "reload p") (simp_all add: p swap_inv_def)
    qed
  qed
qed

lemma inv_route:
  assumes "lifecycle_inv p" and "ServeHTTP_route i p = Some p'"
  shows "lifecycle_inv p'"
proof -
  from assms(1) show ?thesis
  proof (rule lifecycle_invE)
    fix r
    assume h: "runtime p = Some r" "r < engines p" "r \<notin> closed_engines p"
      "\<And>c. c \<in> closed_engines p \<Longrightarrow> c < engines p"
      "\<And>i. i \<in> rlocks p \<longleftrightarrow> requests p i = HasRLock \<or> (\<exists>r'. requests p i = Serving r')"
      "\<And>i r'. requests p i = Serving r' \<Longrightarrow> r' = r"
      "faults p = {}" "\<And>i. requests p i \<noteq> Panicked" "\<not> exited p" "swap_inv p"
    from assms(2) obtain current where pc: "requests p i = Serving current"
      by (auto simp: ServeHTTP_route_def split: request_pc.splits)
    from h(6) [OF pc] h(3) have "current \<notin> closed_engines p" by simp
    with assms(2) pc have p: "p' = p" by (simp add: ServeHTTP_route_def)
    show ?thesis
    proof (rule lifecycle_invI [of p' r])
      show "runtime p' = Some r"
        using h(1) by (simp add: p)
      show "r < engines p'"
        using h(2) by (simp add: p)
      show "r \<notin> closed_engines p'"
        using h(3) by (simp add: p)
      show "\<And>c. c \<in> closed_engines p' \<Longrightarrow> c < engines p'"
        using h(4) by (simp add: p)
      show "\<And>j. j \<in> rlocks p' \<longleftrightarrow> requests p' j = HasRLock \<or> (\<exists>r'. requests p' j = Serving r')"
        using h(5) by (simp add: p)
      show "\<And>j r'. requests p' j = Serving r' \<Longrightarrow> r' = r"
        using h(6) by (simp add: p)
      show "faults p' = {}"
        using h(7) by (simp add: p)
      show "\<And>j. requests p' j \<noteq> Panicked"
        using h(8) by (simp add: p)
      show "\<not> exited p'"
        using h(9) by (simp add: p)
      show "swap_inv p'"
        using h(10) by (simp add: p)
    qed
  qed
qed

lemma inv_RUnlock:
  assumes "lifecycle_inv p" and "ServeHTTP_RUnlock i p = Some p'"
  shows "lifecycle_inv p'"
proof -
  from assms(1) show ?thesis
  proof (rule lifecycle_invE)
    fix r
    assume h: "runtime p = Some r" "r < engines p" "r \<notin> closed_engines p"
      "\<And>c. c \<in> closed_engines p \<Longrightarrow> c < engines p"
      "\<And>i. i \<in> rlocks p \<longleftrightarrow> requests p i = HasRLock \<or> (\<exists>r'. requests p i = Serving r')"
      "\<And>i r'. requests p i = Serving r' \<Longrightarrow> r' = r"
      "faults p = {}" "\<And>i. requests p i \<noteq> Panicked" "\<not> exited p" "swap_inv p"
    from assms(2) obtain current where pc: "requests p i = Serving current"
      and p: "p' = p\<lparr>rlocks := rlocks p - {i}, requests := (requests p)(i := Served current)\<rparr>"
      by (auto simp: ServeHTTP_RUnlock_def split: request_pc.splits)
    from h(5) pc have held: "i \<in> rlocks p" by blast
    show ?thesis
    proof (rule lifecycle_invI [of p' r])
      show "runtime p' = Some r"
        using h(1) by (simp add: p)
      show "r < engines p'"
        using h(2) by (simp add: p)
      show "r \<notin> closed_engines p'"
        using h(3) by (simp add: p)
      show "\<And>c. c \<in> closed_engines p' \<Longrightarrow> c < engines p'"
        using h(4) by (simp add: p)
      show "\<And>j. j \<in> rlocks p' \<longleftrightarrow> requests p' j = HasRLock \<or> (\<exists>r'. requests p' j = Serving r')"
        using h(5) by (auto simp: p)
      show "\<And>j r'. requests p' j = Serving r' \<Longrightarrow> r' = r"
        using h(6) by (simp add: p split: if_splits)
      show "faults p' = {}"
        using h(7) by (simp add: p)
      show "\<And>j. requests p' j \<noteq> Panicked"
        using h(8) by (simp add: p)
      show "\<not> exited p'"
        using h(9) by (simp add: p)
      show "swap_inv p'"
        using h(10) held by (cases "reload p") (auto simp: p swap_inv_def)
    qed
  qed
qed

lemma inv_reload_failed:
  assumes "lifecycle_inv p" and "reload_callback (Some err) p = Some p'"
  shows "lifecycle_inv p'"
proof -
  from assms(1) show ?thesis
  proof (rule lifecycle_invE)
    fix r
    assume h: "runtime p = Some r" "r < engines p" "r \<notin> closed_engines p"
      "\<And>c. c \<in> closed_engines p \<Longrightarrow> c < engines p"
      "\<And>i. i \<in> rlocks p \<longleftrightarrow> requests p i = HasRLock \<or> (\<exists>r'. requests p i = Serving r')"
      "\<And>i r'. requests p i = Serving r' \<Longrightarrow> r' = r"
      "faults p = {}" "\<And>i. requests p i \<noteq> Panicked" "\<not> exited p" "swap_inv p"
    from assms(2) have w: "reload p = Watching"
      and p: "p' = p\<lparr>log_lines := log_lines p @ [ChangeDetected, ReloadFailed err],
          engines := engines p + 1, closed_engines := insert (engines p) (closed_engines p)\<rparr>"
      by (auto simp: reload_callback_def BuildRuntime_def Let_def split: if_splits)
    show ?thesis
    proof (rule lifecycle_invI [of p' r])
      show "runtime p' = Some r"
        using h(1) by (simp add: p)
      show "r < engines p'"
        using h(2) by (simp add: p)
      show "r \<notin> closed_engines p'"
        using h(2,3) by (simp add: p)
      show "\<And>c. c \<in> closed_engines p' \<Longrightarrow> c < engines p'"
        using h(4) by (auto simp: p less_Suc_eq)
      show "\<And>j. j \<in> rlocks p' \<longleftrightarrow> requests p' j = HasRLock \<or> (\<exists>r'. requests p' j = Serving r')"
        using h(5) by (simp add: p)
      show "\<And>j r'. requests p' j = Serving r' \<Longrightarrow> r' = r"
        using h(6) by (simp add: p)
      show "faults p' = {}"
        using h(7) by (simp add: p)
      show "\<And>j. requests p' j \<noteq> Panicked"
        using h(8) by (simp add: p)
      show "\<not> exited p'"
        using h(9) by (simp add: p)
      show "swap_inv p'"
        using h(10) w by (simp add: p swap_inv_def)
    qed
  qed
qed

lemma inv_reload_built:
  assumes "lifecycle_inv p" and "reload_callback None p = Some p'"
  shows "lifecycle_inv p'"
proof -
  from assms(1) show ?thesis
  proof (rule lifecycle_invE)
    fix r
    assume h: "runtime p = Some r" "r < engines p" "r \<notin> closed_engines p"
      "\<And>c. c \<in> closed_engines p \<Longrightarrow> c < engines p"
      "\<And>i. i \<in> rlocks p \<longleftrightarrow> requests p i = HasRLock \<or> (\<exists>r'. requests p i = Serving r')"
      "\<And>i r'. requests p i = Serving r' \<Longrightarrow> r' = r"
      "faults p = {}" "\<And>i. requests p i \<noteq> Panicked" "\<not> exited p" "swap_inv p"
    from assms(2) have w: "reload p = Watching"
      and p: "p' = p\<lparr>log_lines := log_lines p @ [ChangeDetected],
          engines := engines p + 1, reload := Built (engines p)\<rparr>"
      by (auto simp: reload_callback_def BuildRuntime_def Let_def split: if_splits)
    from h(4) have fresh: "engines p \<notin> closed_engines p" by blast
    show ?thesis
    proof (rule lifecycle_invI [of p' r])
      show "runtime p' = Some r"
        using h(1) by (simp add: p)
      show "r < engines p'"
        using h(2) by (simp add: p)
      show "r \<notin> closed_engines p'"
        using h(3) by (simp add: p)
      show "\<And>c. c \<in> closed_engines p' \<Longrightarrow> c < engines p'"
        using h(4) by (simp add: p less_Suc_eq)
      show "\<And>j. j \<in> rlocks p' \<longleftrightarrow> requests p' j = HasRLock \<or> (\<exists>r'. requests p' j = Serving r')"
        using h(5) by (simp add: p)
      show "\<And>j r'. requests p' j = Serving r' \<Longrightarrow> r' = r"
        using h(6) by (simp add: p)
      show "faults p' = {}"
        using h(7) by (simp add: p)
      show "\<And>j. requests p' j \<noteq> Panicked"
        using h(8) by (simp add: p)
      show "\<not> exited p'"
        using h(9) by (simp add: p)
      show "swap_inv p'"
        using h(1,2,10) w fresh by (simp add: p swap_inv_def)
    qed
  qed
qed

lemma inv_Swap_Lock:
  assumes "lifecycle_inv p" and "Swap_Lock p = Some p'"
  shows "lifecycle_inv p'"
proof -
  from assms(1) show ?thesis
  proof (rule lifecycle_invE)
    fix r
    assume h: "runtime p = Some r" "r < engines p" "r \<notin> closed_engines p"
      "\<And>c. c \<in> closed_engines p \<Longrightarrow> c < engines p"
      "\<And>i. i \<in> rlocks p \<longleftrightarrow> requests p i = HasRLock \<or> (\<exists>r'. requests p i = Serving r')"
      "\<And>i r'. requests p i = Serving r' \<Longrightarrow> r' = r"
      "faults p = {}" "\<And>i. requests p i \<noteq> Panicked" "\<not> exited p" "swap_inv p"
    from assms(2) obtain "next" where n: "reload p = Built next" "rlocks p = {}"
      and p: "p' = p\<lparr>wlock := True, reload := HasLock next\<rparr>"
      by (auto simp: Swap_Lock_def split: reload_pc.splits if_splits)
    show ?thesis
    proof (rule lifecycle_invI [of p' r])
      show "runtime p' = Some r"
        using h(1) by (simp add: p)
      show "r < engines p'"
        using h(2) by (simp add: p)
      show "r \<notin> closed_engines p'"
        using h(3) by (simp add: p)
      show "\<And>c. c \<in> closed_engines p' \<Longrightarrow> c < engines p'"
        using h(4) by (simp add: p)
      show "\<And>j. j \<in> rlocks p' \<longleftrightarrow> requests p' j = HasRLock \<or> (\<exists>r'. requests p' j = Serving r')"
        using h(5) by (simp add: p)
      show "\<And>j r'. requests p' j = Serving r' \<Longrightarrow> r' = r"
        using h(6) by (simp add: p)
      show "faults p' = {}"
        using h(7) by (simp add: p)
      show "\<And>j. requests p' j \<noteq> Panicked"
        using h(8) by (simp add: p)
      show "\<not> exited p'"
        using h(9) by (simp add: p)
      show "swap_inv p'"
        using h(10) n by (simp add: p swap_inv_def)
    qed
  qed
qed

lemma inv_Swap_exchange:
  assumes "lifecycle_inv p" and "Swap_exchange p = Some p'"
  shows "lifecycle_inv p'"
proof -
  from assms(1) show ?thesis
  proof (rule lifecycle_invE)
    fix r
    assume h: "runtime p = Some r" "r < engines p" "r \<notin> closed_engines p"
      "\<And>c. c \<in> closed_engines p \<Longrightarrow> c < engines p"
      "\<And>i. i \<in> rlocks p \<longleftrightarrow> requests p i = HasRLock \<or> (\<exists>r'. requests p i = Serving r')"
      "\<And>i r'. requests p i = Serving r' \<Longrightarrow> r' = r"
      "faults p = {}" "\<And>i. requests p i \<noteq> Panicked" "\<not> exited p" "swap_inv p"
    from assms(2) obtain "next" where n: "reload p = HasLock next"
      and p: "p' = p\<lparr>runtime := Some next, reload := Exchanged (runtime p)\<rparr>"
      by (auto simp: Swap_exchange_def split: reload_pc.splits)
    from h(10) n have s: "wlock p" "rlocks p = {}" "next < engines p"
      "next \<notin> closed_engines p" "next \<noteq> r"
      using h(1) by (auto simp: swap_inv_def)
    from h(5) s(2) have nobody: "requests p i \<noteq> Serving r'" for i r' by blast
    show ?thesis
    proof (rule lifecycle_invI [of p' "next"])
      show "runtime p' = Some next"
        by (simp add: p)
      show "next < engines p'"
        using s(3) by (simp add: p)
      show "next \<notin> closed_engines p'"
        using s(4) by (simp add: p)
      show "\<And>c. c \<in> closed_engines p' \<Longrightarrow> c < engines p'"
        using h(4) by (simp add: p)
      show "\<And>j. j \<in> rlocks p' \<longleftrightarrow> requests p' j = HasRLock \<or> (\<exists>r'. requests p' j = Serving r')"
        using h(5) by (simp add: p)
      show "\<And>j r'. requests p' j = Serving r' \<Longrightarrow> r' = next"
        using nobody by (simp add: p)
      show "faults p' = {}"
        using h(7) by (simp add: p)
      show "\<And>j. requests p' j \<noteq> Panicked"
        using h(8) by (simp add: p)
      show "\<not> exited p'"
        using h(9) by (simp add: p)
      show "swap_inv p'"
        using s h(1,2) by (simp add: p swap_inv_def)
    qed
  qed
qed

lemma inv_Swap_Unlock:
  assumes "lifecycle_inv p" and "Swap_Unlock p = Some p'"
  shows "lifecycle_inv p'"
proof -
  from assms(1) show ?thesis
  proof (rule lifecycle_invE)
    fix r
    assume h: "runtime p = Some r" "r < engines p" "r \<notin> closed_engines p"
      "\<And>c. c \<in> closed_engines p \<Longrightarrow> c < engines p"
      "\<And>i. i \<in> rlocks p \<longleftrightarrow> requests p i = HasRLock \<or> (\<exists>r'. requests p i = Serving r')"
      "\<And>i r'. requests p i = Serving r' \<Longrightarrow> r' = r"
      "faults p = {}" "\<And>i. requests p i \<noteq> Panicked" "\<not> exited p" "swap_inv p"
    from assms(2) obtain old where n: "reload p = Exchanged old"
      and p: "p' = p\<lparr>wlock := False, reload := Released old\<rparr>"
      by (auto simp: Swap_Unlock_def split: reload_pc.splits)
    show ?thesis
    proof (rule lifecycle_invI [of p' r])
      show "runtime p' = Some r"
        using h(1) by (simp add: p)
      show "r < engines p'"
        using h(2) by (simp add: p)
      show "r \<notin> closed_engines p'"
        using h(3) by (simp add: p)
      show "\<And>c. c \<in> closed_engines p' \<Longrightarrow> c < engines p'"
        using h(4) by (simp add: p)
      show "\<And>j. j \<in> rlocks p' \<longleftrightarrow> requests p' j = HasRLock \<or> (\<exists>r'. requests p' j = Serving r')"
        using h(5) by (simp add: p)
      show "\<And>j r'. requests p' j = Serving r' \<Longrightarrow> r' = r"
        using h(6) by (simp add: p)
      show "faults p' = {}"
        using h(7) by (simp add: p)
      show "\<And>j. requests p' j \<noteq> Panicked"
        using h(8) by (simp add: p)
      show "\<not> exited p'"
        using h(9) by (simp add: p)
      show "swap_inv p'"
        using h(10) n by (simp add: p swap_inv_def)
    qed
  qed
qed

lemma inv_Swap_Close:
  assumes "lifecycle_inv p" and "Swap_Close p = Some p'"
  shows "lifecycle_inv p'"
proof -
  from assms(1) show ?thesis
  proof (rule lifecycle_invE)
    fix r
    assume h: "runtime p = Some r" "r < engines p" "r \<notin> closed_engines p"
      "\<And>c. c \<in> closed_engines p \<Longrightarrow> c < engines p"
      "\<And>i. i \<in> rlocks p \<longleftrightarrow> requests p i = HasRLock \<or> (\<exists>r'. requests p i = Serving r')"
      "\<And>i r'. requests p i = Serving r' \<Longrightarrow> r' = r"
      "faults p = {}" "\<And>i. requests p i \<noteq> Panicked" "\<not> exited p" "swap_inv p"
    from assms(2) obtain old where n: "reload p = Released old"
      and p: "p' = (case old of None \<Rightarrow> p\<lparr>reload := Watching\<rparr>
        | Some engine \<Rightarrow> p\<lparr>closed_engines := insert engine (closed_engines p), reload := Watching\<rparr>)"
      by (auto simp: Swap_Close_def split: reload_pc.splits)
    from h(10) n have s: "\<not> wlock p" "Some r \<noteq> old" "\<And>e. old = Some e \<Longrightarrow> e < engines p"
      using h(1) by (auto simp: swap_inv_def)
    show ?thesis
    proof (rule lifecycle_invI [of p' r])
      show "runtime p' = Some r"
        using h(1) by (simp add: p split: option.splits)
      show "r < engines p'"
        using h(2) by (simp add: p split: option.splits)
      show "r \<notin> closed_engines p'"
        using h(3) s(2) by (auto simp: p split: option.splits)
      show "\<And>c. c \<in> closed_engines p' \<Longrightarrow> c < engines p'"
        using h(4) s(3) by (auto simp: p split: option.splits)
      show "\<And>j. j \<in> rlocks p' \<longleftrightarrow> requests p' j = HasRLock \<or> (\<exists>r'. requests p' j = Serving r')"
        using h(5) by (simp add: p split: option.splits)
      show "\<And>j r'. requests p' j = Serving r' \<Longrightarrow> r' = r"
        using h(6) by (simp add: p split: option.splits)
      show "faults p' = {}"
        using h(7) by (simp add: p split: option.splits)
      show "\<And>j. requests p' j \<noteq> Panicked"
        using h(8) by (simp add: p split: option.splits)
      show "\<not> exited p'"
        using h(9) by (simp add: p split: option.splits)
      show "swap_inv p'"
        using s by (simp add: p swap_inv_def split: option.splits)
    qed
  qed
qed

lemma inv_step:
  assumes "lifecycle_inv p" and "step e p = Some p'"
  shows "lifecycle_inv p'"
proof (cases e)
  case (EvRLock i)
  with assms(2) have "ServeHTTP_RLock i p = Some p'" by simp
  with assms(1) show ?thesis by (rule inv_RLock)
next
  case (EvCurrent i)
  with assms(2) have "ServeHTTP_current i p = Some p'" by simp
  with assms(1) show ?thesis by (rule inv_current)
next
  case (EvRoute i)
  with assms(2) have "ServeHTTP_route i p = Some p'" by simp
  with assms(1) show ?thesis by (rule inv_route)
next
  case (EvRUnlock i)
  with assms(2) have "ServeHTTP_RUnlock i p = Some p'" by simp
  with assms(1) show ?thesis by (rule inv_RUnlock)
next
  case (EvScriptChanged load)
  show ?thesis
  proof (cases load)
    case None
    with EvScriptChanged assms(2) have "reload_callback None p = Some p'" by simp
    with assms(1) show ?thesis by (rule inv_reload_built)
  next
    case (Some err)
    with EvScriptChanged assms(2) have "reload_callback (Some err) p = Some p'" by simp
    with assms(1) show ?thesis by (rule inv_reload_failed)
  qed
next
  case EvSwapLock
  with assms(2) have "Swap_Lock p = Some p'" by simp
  with assms(1) show ?thesis by (rule inv_Swap_Lock)
next
  case EvSwapExchange
  with assms(2) have "Swap_exchange p = Some p'" by simp
  with assms(1) show ?thesis by (rule inv_Swap_exchange)
next
  case EvSwapUnlock
  with assms(2) have "Swap_Unlock p = Some p'" by simp
  with assms(1) show ?thesis by (rule inv_Swap_Unlock)
next
  case EvSwapClose
  with assms(2) have "Swap_Close p = Some p'" by simp
  with assms(1) show ?thesis by (rule inv_Swap_Close)
qed

lemma inv_steps: "lifecycle_inv p \<Longrightarrow> steps es p = Some p' \<Longrightarrow> lifecycle_inv p'"
proof (induction es arbitrary: p)
  case Nil
  then show ?case by simp
next
  case (Cons e es)
  from Cons.prems(2) obtain q where q: "step e p = Some q" and rest: "steps es q = Some p'"
    by (auto split: option.splits)
  from Cons.prems(1) q have "lifecycle_inv q" by (rule inv_step)
  then show ?case using rest by (rule Cons.IH)
qed

lemma inv_reachable: "steps es (main_start None) = Some p \<Longrightarrow> lifecycle_inv p"
  using inv_main_start by (rule inv_steps)

lemma wlock_no_readers: "lifecycle_inv p \<Longrightarrow> wlock p \<Longrightarrow> rlocks p = {}"
  unfolding lifecycle_inv_def swap_inv_def by (cases "reload p") auto

lemma step_keeps_serving:
  assumes "requests p i = Serving r" and "step e p = Some p'"
  shows "requests p' i = Serving r \<or> (e = EvRUnlock i \<and> requests p' i = Served r)"
proof (cases e)
  case (EvRLock j)
  with assms show ?thesis by (auto simp: ServeHTTP_RLock_def split: if_splits)
next
  case (EvCurrent j)
  with assms show ?thesis
    by (auto simp: ServeHTTP_current_def split: if_splits option.splits)
next
  case (EvRoute j)
  with assms show ?thesis
    by (auto simp: ServeHTTP_route_def split: if_splits request_pc.splits)
next
  case (EvRUnlock j)
  with assms show ?thesis
    by (auto simp: ServeHTTP_RUnlock_def split: if_splits request_pc.splits)
next
  case (EvScriptChanged load)
  with assms show ?thesis
    by (cases load) (auto simp: reload_callback_def BuildRuntime_def Let_def split: if_splits)
next
  case EvSwapLock
  with assms show ?thesis by (auto simp: Swap_Lock_def split: if_splits reload_pc.splits)
next
  case EvSwapExchange
  with assms show ?thesis by (auto simp: Swap_exchange_def split: reload_pc.splits)
next
  case EvSwapUnlock
  with assms show ?thesis by (auto simp: Swap_Unlock_def split: reload_pc.splits)
next
  case EvSwapClose
  with assms show ?thesis by (auto simp: Swap_Close_def split: reload_pc.splits option.splits)
qed

section \<open>Properties of the key/value store\<close>

lemma Keys_eq: "Keys s = map fst (kv s)"
proof -
  have "fold (\<lambda>(key, value) keys. keys @ [key]) xs acc = acc @ map fst xs" for xs :: "(string \<times> gval) list" and acc
    by (induction xs arbitrary: acc) auto
  then show ?thesis by (simp add: Keys_def)
qed

lemma Store_Get_found: "snd (Store_Get key s) \<longleftrightarrow> key \<in> fst ` set (kv s)"
  using map_of_eq_None_iff [of "kv s" key]
  by (cases "map_of (kv s) key") (simp_all add: Store_Get_def)

lemma fold_RawSetInt:
  "fold (\<lambda>(i, key) table. RawSetInt (i + 1) (LString key) table) (enumerate n keys) acc =
     fold (\<lambda>(k, v) table. AList.update k v table)
       (map (\<lambda>(i, key). (LNumber (Finite (real (i + 1))), LString key)) (enumerate n keys)) acc"
  by (induction keys arbitrary: n acc) (simp_all add: RawSetInt_def)

lemma enumerate_keys_distinct:
  "distinct (map fst (map (\<lambda>(i, key). (LNumber (Finite (real (i + 1))), LString key)) (enumerate n keys)))"
proof -
  have "map fst (map (\<lambda>(i, key). (LNumber (Finite (real (i + 1))), LString key)) xs)
      = map (\<lambda>i. LNumber (Finite (real (i + 1)))) (map fst xs)" for xs :: "(nat \<times> string) list"
    by (induction xs) auto
  moreover have "distinct (map (\<lambda>i. LNumber (Finite (real (i + 1)))) [n..<n + length keys])"
    by (simp add: distinct_map inj_on_def)
  ultimately show ?thesis by (simp only: map_fst_enumerate)
qed

lemma sugarKeys_eq:
  "sugarKeys store =
     LTable (map (\<lambda>(i, key). (LNumber (Finite (real (i + 1))), LString key))
               (enumerate 0 (sort (Keys store))))"
proof -
  have "fold (\<lambda>(i, key) table. RawSetInt (i + 1) (LString key) table)
          (enumerate 0 (sort (Keys store))) [] =
        map (\<lambda>(i, key). (LNumber (Finite (real (i + 1))), LString key)) (enumerate 0 (sort (Keys store)))"
    unfolding fold_RawSetInt
    using fold_update_fresh [OF enumerate_keys_distinct, of 0 "sort (Keys store)" "[]"]
    by simp
  then show ?thesis unfolding sugarKeys_def Let_def by (rule arg_cong)
qed

section \<open>Properties of the copies\<close>

lemma entries_append_new: "entries (h @ [MapObj []]) a = entries h a"
  by (auto simp: entries_def nth_append)

lemma entries_update_same: "a < length h \<Longrightarrow> entries (h[a := MapObj m]) a = m"
  by (simp add: entries_def)

lemma entries_update_other: "b \<noteq> a \<Longrightarrow> entries (h[a := obj]) b = entries h b"
  by (simp add: entries_def)

lemma fold_set_field:
  assumes "copy < length h" and "h ! copy = MapObj m"
  shows "fold (\<lambda>(key, value) h. set_field copy key value h) xs h =
         h[copy := MapObj (fold (\<lambda>(key, value) m. AList.update key value m) xs m)]"
  using assms
proof (induction xs arbitrary: h m)
  case Nil
  then show ?case by (metis fold_simps(1) list_update_id)
next
  case (Cons x xs)
  obtain k v where x: "x = (k, v)" by (cases x)
  let ?h = "set_field copy k v h"
  have e: "entries h copy = m" using Cons.prems by (simp add: entries_def)
  have h': "?h = h[copy := MapObj (AList.update k v m)]" by (simp add: set_field_def e)
  have len: "copy < length ?h" and at: "?h ! copy = MapObj (AList.update k v m)"
    using Cons.prems by (simp_all add: h')
  show ?case
    using Cons.IH [OF len at] by (simp add: x) (simp add: h')
qed

lemma cloneRecord_h_eq:
  assumes "wf_map (entries h record)"
  shows "cloneRecord_h h record = (length h, h @ [MapObj (entries h record)])"
proof -
  let ?h = "h @ [MapObj []]"
  have "fold (\<lambda>(key, value) h'. set_field (length h) key value h') (entries ?h record) ?h =
        ?h[length h := MapObj (fold (\<lambda>(key, value) m. AList.update key value m) (entries ?h record) [])]"
    by (rule fold_set_field) simp_all
  moreover have "fold (\<lambda>(key, value) m. AList.update key value m) (entries h record) [] =
      entries h record"
    using fold_update_fresh [of "entries h record" "[]"] assms by (simp add: wf_map_def)
  ultimately show ?thesis
    by (simp add: cloneRecord_h_def new_map_def entries_append_new)
qed

lemma entries_last: "entries (h @ [MapObj m]) (length h) = m"
  by (simp add: entries_def)

lemma entries_old: "a < length h \<Longrightarrow> entries (h @ xs) a = entries h a"
  by (simp add: entries_def nth_append)

lemma refs_of_closed:
  assumes "closed_heap h" and "a < length h"
  shows "h ! a = MapObj m \<Longrightarrow> (k, HRef b) \<in> set m \<Longrightarrow> b < length h"
    and "h ! a = SliceObj xs \<Longrightarrow> HRef b \<in> set xs \<Longrightarrow> b < length h"
proof -
  have obj: "h ! a \<in> set h" using assms(2) by simp
  show "h ! a = MapObj m \<Longrightarrow> (k, HRef b) \<in> set m \<Longrightarrow> b < length h"
    using assms(1) obj unfolding closed_heap_def refs_of_def by force
  show "h ! a = SliceObj xs \<Longrightarrow> HRef b \<in> set xs \<Longrightarrow> b < length h"
    using assms(1) obj unfolding closed_heap_def refs_of_def by force
qed

lemma read_val_append:
  assumes "closed_heap h"
  shows "(\<And>a. v = HRef a \<Longrightarrow> a < length h) \<Longrightarrow> read_val n (h @ new) v = read_val n h v"
proof (induction n arbitrary: v)
  case 0
  then show ?case by (cases v) simp_all
next
  case (Suc n)
  show ?case
  proof (cases v)
    case (HRef a)
    with Suc.prems have a: "a < length h" by simp
    show ?thesis
    proof (cases "h ! a")
      case (MapObj m)
      have "read_val n (h @ new) w = read_val n h w" if "(k, w) \<in> set m" for k w
        using refs_of_closed(1) [OF assms a MapObj] that by (intro Suc.IH) auto
      then have "map (\<lambda>(k, v). (k, read_val n (h @ new) v)) m = map (\<lambda>(k, v). (k, read_val n h v)) m"
        by (intro map_cong) auto
      with a MapObj HRef show ?thesis by (simp add: nth_append)
    next
      case (SliceObj xs)
      have "read_val n (h @ new) w = read_val n h w" if "w \<in> set xs" for w
        using refs_of_closed(2) [OF assms a SliceObj] that by (intro Suc.IH) auto
      then have "map (read_val n (h @ new)) xs = map (read_val n h) xs"
        by (intro map_cong) auto
      with a SliceObj HRef show ?thesis by (simp add: nth_append)
    qed
  qed simp_all
qed

lemma read_record_append:
  assumes "closed_heap h" and "a < length h"
  shows "read_record n (h @ new) a = read_record n h a"
proof -
  have "read_val n (h @ new) w = read_val n h w" if "(k, w) \<in> set (entries h a)" for k w
  proof (rule read_val_append [OF assms(1)])
    fix b assume "w = HRef b"
    with that assms(2) show "b < length h"
      using refs_of_closed(1) [OF assms] by (cases "h ! a") (auto simp: entries_def)
  qed
  then have "map (\<lambda>(k, v). (k, read_val n (h @ new) v)) (entries h a) =
      map (\<lambda>(k, v). (k, read_val n h v)) (entries h a)"
    by (intro map_cong) auto
  then show ?thesis using assms(2) by (simp add: read_record_def entries_old)
qed

lemma matches_h_append:
  "closed_heap h \<Longrightarrow> r < length h \<Longrightarrow> c < length h \<Longrightarrow>
   matches_h pf n (h @ new) r c = matches_h pf n h r c"
  by (simp add: matches_h_def read_record_append)

lemma Query_loop_h_props:
  assumes "closed_heap h0" and "criteria < length h0"
    and "\<forall>r \<in> set records. r < length h0 \<and> wf_map (entries h0 r)"
    and "Query_loop_h pf n criteria records (h0 @ new) = (result, h')"
  shows "\<exists>added. h' = h0 @ new @ added
           \<and> result = [length (h0 @ new) ..< length h']
           \<and> map (entries h') result =
               map (entries h0) (filter (\<lambda>r. matches_h pf n h0 r criteria) records)"
  using assms(3,4)
proof (induction records arbitrary: new result h')
  case Nil
  then show ?case by auto
next
  case (Cons r rest)
  from Cons.prems(1) have r: "r < length h0" "wf_map (entries h0 r)"
    and rest: "\<forall>r \<in> set rest. r < length h0 \<and> wf_map (entries h0 r)" by simp_all
  have m: "matches_h pf n (h0 @ new) r criteria = matches_h pf n h0 r criteria"
    using assms(1) r(1) assms(2) by (rule matches_h_append)
  have e: "entries (h0 @ new) r = entries h0 r" using r(1) by (rule entries_old)
  show ?case
  proof (cases "matches_h pf n h0 r criteria")
    case False
    with Cons.prems(2) m have "Query_loop_h pf n criteria rest (h0 @ new) = (result, h')"
      by simp
    from Cons.IH [OF rest this] obtain added where "h' = h0 @ new @ added"
      "result = [length (h0 @ new) ..< length h']"
      "map (entries h') result =
               map (entries h0) (filter (\<lambda>r. matches_h pf n h0 r criteria) rest)"
      by blast
    with False show ?thesis by auto
  next
    case True
    let ?copy = "length (h0 @ new)"
    let ?new1 = "new @ [MapObj (entries h0 r)]"
    have clone: "cloneRecord_h (h0 @ new) r = (?copy, h0 @ ?new1)"
      using cloneRecord_h_eq [of "h0 @ new" r] r(2) e by simp
    obtain result1 h1 where rec: "Query_loop_h pf n criteria rest (h0 @ ?new1) = (result1, h1)"
      by (cases "Query_loop_h pf n criteria rest (h0 @ ?new1)")
    from Cons.prems(2) m True clone rec have res: "result = ?copy # result1" and h1: "h' = h1"
      by simp_all
    from Cons.IH [OF rest rec] obtain added where a: "h1 = h0 @ ?new1 @ added"
      and r1: "result1 = [length (h0 @ ?new1) ..< length h1]"
      and e1: "map (entries h1) result1 =
               map (entries h0) (filter (\<lambda>r. matches_h pf n h0 r criteria) rest)"
      by blast
    have copy: "entries h1 ?copy = entries h0 r"
      unfolding a by (simp add: entries_def nth_append)
    have lt: "?copy < length h1" using a by simp
    have suc: "length (h0 @ ?new1) = Suc ?copy" by simp
    have "result = [?copy ..< length h1]"
      unfolding res r1 suc using upt_conv_Cons [OF lt] by simp
    moreover have "h' = h0 @ new @ ([MapObj (entries h0 r)] @ added)"
      using a h1 by simp
    moreover have "map (entries h') result =
               map (entries h0) (filter (\<lambda>r. matches_h pf n h0 r criteria) (r # rest))"
      using True e1 copy by (simp add: res h1)
    ultimately show ?thesis unfolding h1 by blast
  qed
qed

lemma Insert_h_Some:
  assumes "collection \<noteq> ''''" and "wf_map (entries h a)"
  shows "Insert_h env collection (Some a) s h =
    (let stored = (if map_of (entries h a) ''id'' = None
                   then entries h a @ [(''id'', HInt (r_nextID s))] else entries h a);
         s' = s\<lparr>r_nextID := (if map_of (entries h a) ''id'' = None
                               then r_nextID s + 1 else r_nextID s),
                 r_data := AList.update collection
                             (records_of_h (r_data s) collection @ [length h]) (r_data s)\<rparr>
     in case saveLocked_h env s of
          Some err \<Rightarrow> ((None, Some err), s', h @ [MapObj stored])
        | None \<Rightarrow> ((Some (length h + 1), None), s', h @ [MapObj stored, MapObj stored]))"
proof -
  have sv: "saveLocked_h env (s\<lparr>r_nextID := n, r_data := d\<rparr>) = saveLocked_h env s"
    "saveLocked_h env (s\<lparr>r_data := d\<rparr>) = saveLocked_h env s" for n d
    by (simp_all add: saveLocked_h_def)
  have fresh: "''id'' \<notin> fst ` set (entries h a)" if "map_of (entries h a) ''id'' = None"
    using that by (simp add: map_of_eq_None_iff)
  have wf1: "wf_map (entries h a @ [(''id'', HInt (r_nextID s))])"
    if "map_of (entries h a) ''id'' = None"
    using assms(2) fresh [OF that] by (auto simp: wf_map_def)
  have c2: "cloneRecord_h (h @ [MapObj m]) (length h) = (length h + 1, h @ [MapObj m, MapObj m])"
    if "wf_map m" for m
    using cloneRecord_h_eq [of "h @ [MapObj m]" "length h"] that by (simp add: entries_last)
  show ?thesis
  proof (cases "map_of (entries h a) ''id''")
    case None
    then show ?thesis
      using assms c2 [OF wf1 [OF None]] fresh [OF None]
      by (cases "saveLocked_h env s")
        (simp_all add: Insert_h_def cloneRecord_h_eq entries_last set_field_def sv update_fresh Let_def)
  next
    case (Some v)
    then show ?thesis
      using assms c2 [OF assms(2)]
      by (cases "saveLocked_h env s")
        (simp_all add: Insert_h_def cloneRecord_h_eq entries_last sv Let_def)
  qed
qed

subsection \<open>The two readings of Insert agree\<close>

text \<open>
  \<open>Insert\<close> on objects does to the values they hold what \<open>Insert\<close> on values does: the
  store left behind, the error, and the record returned are the same.
\<close>

lemma map_update_keys:
  "map (\<lambda>(k, v). (k, f v)) (AList.update k0 v0 al) = AList.update k0 (f v0) (map (\<lambda>(k, v). (k, f v)) al)"
  by (induction al) auto

lemma map_of_map_keys:
  "map_of (map (\<lambda>(k, v). (k, f v)) al) k0 = map_option f (map_of al k0)"
  by (induction al) auto

lemma wf_map_map_keys: "wf_map (map (\<lambda>(k, v). (k, f v)) al) = wf_map al"
  by (simp add: wf_map_def case_prod_unfold comp_def)

lemma read_record_wf: "wf_map (read_record n h a) = wf_map (entries h a)"
  by (simp add: read_record_def wf_map_map_keys)

lemma read_record_id:
  "map_of (read_record n h a) k = None \<longleftrightarrow> map_of (entries h a) k = None"
  by (simp add: read_record_def map_of_map_keys)

lemma entry_refs_closed:
  assumes "closed_heap h" and "a < length h" and "(k, HRef b) \<in> set (entries h a)"
  shows "b < length h"
  using assms refs_of_closed(1) [OF assms(1,2)]
  by (cases "h ! a") (auto simp: entries_def)

lemma read_entries_append:
  assumes "closed_heap h" and "a < length h"
  shows "map (\<lambda>(k, v). (k, read_val n (h @ new) v)) (entries h a) = read_record n h a"
proof -
  have "read_val n (h @ new) w = read_val n h w" if "(k, w) \<in> set (entries h a)" for k w
    using that entry_refs_closed [OF assms] by (intro read_val_append [OF assms(1)]) auto
  then show ?thesis unfolding read_record_def by (intro map_cong) auto
qed

lemma records_of_abs:
  "records_of (data (abs_store n h s)) collection =
     map (read_record n h) (records_of_h (r_data s) collection)"
  by (simp add: abs_store_def records_of_def records_of_h_def map_of_map_keys
      split: option.splits)

lemma abs_store_append:
  assumes "closed_heap h" and "valid_store h s"
  shows "abs_store n (h @ new) s = abs_store n h s"
proof -
  have "map (read_record n (h @ new)) records = map (read_record n h) records"
    if "(collection, records) \<in> set (r_data s)" for collection records
    using that assms by (intro map_cong) (auto simp: valid_store_def read_record_append)
  then have "map (\<lambda>(collection, records). (collection, map (read_record n (h @ new)) records)) (r_data s)
      = map (\<lambda>(collection, records). (collection, map (read_record n h) records)) (r_data s)"
    by (intro map_cong) auto
  then show ?thesis by (simp add: abs_store_def)
qed

lemma Insert_h_refines_Insert:
  assumes c: "collection \<noteq> ''''" and cl: "closed_heap h" and a: "a < length h"
    and wf: "wf_map (entries h a)" and valid: "valid_store h s"
    and eq: "Insert_h env collection (Some a) s h = ((res, err), s', h')"
  shows "abs_store n h' s' = snd (Insert env collection (read_record n h a) (abs_store n h s))
       \<and> snd (fst (Insert env collection (read_record n h a) (abs_store n h s))) = err
       \<and> (err = None \<longrightarrow>
            (\<exists>r. res = Some r
               \<and> read_record n h' r =
                   fst (fst (Insert env collection (read_record n h a) (abs_store n h s)))))"
proof -
  define stored where "stored = (if map_of (entries h a) ''id'' = None
                   then entries h a @ [(''id'', HInt (r_nextID s))] else entries h a)"
  define s1 where "s1 = s\<lparr>r_nextID := (if map_of (entries h a) ''id'' = None
                               then r_nextID s + 1 else r_nextID s),
                 r_data := AList.update collection
                             (records_of_h (r_data s) collection @ [length h]) (r_data s)\<rparr>"
  let ?rec = "read_record n h a"
  let ?sv = "abs_store n h s"
  have x: "((res, err), s', h') =
     (case saveLocked_h env s of
          Some err \<Rightarrow> ((None, Some err), s1, h @ [MapObj stored])
        | None \<Rightarrow> ((Some (length h + 1), None), s1, h @ [MapObj stored, MapObj stored]))"
    using Insert_h_Some [OF c wf, of env s] unfolding eq
    by (cases "saveLocked_h env s"; cases "map_of (entries h a) ''id''")
      (simp_all add: Let_def stored_def s1_def)
  have sv: "saveLocked env ?sv = saveLocked_h env s"
    by (simp add: saveLocked_def saveLocked_h_def abs_store_def)
  have err: "err = saveLocked_h env s" and s': "s' = s1"
    and h': "\<exists>new. h' = h @ MapObj stored # new"
    using x by (cases "saveLocked_h env s"; simp)+
  then obtain new where hn: "h' = h @ MapObj stored # new" by blast
  have wfr: "wf_map ?rec" using wf by (simp add: read_record_wf)
  have idn: "map_of ?rec ''id'' = None \<longleftrightarrow> map_of (entries h a) ''id'' = None"
    by (rule read_record_id)
  have old: "map (\<lambda>(k, v). (k, read_val n h' v)) (entries h a) = ?rec"
    using read_entries_append [OF cl a, of n "MapObj stored # new"] by (simp add: hn)
  have stored_read: "read_record n h' (length h) =
      (if map_of ?rec ''id'' = None then ?rec @ [(''id'', GInt (r_nextID s))] else ?rec)"
  proof -
    have e: "entries h' (length h) = stored" by (simp add: hn entries_def)
    have "read_record n h' (length h) = map (\<lambda>(k, v). (k, read_val n h' v)) stored"
      by (simp add: read_record_def e)
    also have "\<dots> = (if map_of (entries h a) ''id'' = None
        then ?rec @ [(''id'', GInt (r_nextID s))] else ?rec)"
      by (simp add: stored_def old)
    finally show ?thesis unfolding idn .
  qed
  have stored_val: "stored_record env collection ?rec ?sv =
      (if map_of ?rec ''id'' = None then ?rec @ [(''id'', GInt (r_nextID s))] else ?rec)"
    using c wfr
    by (auto simp: stored_record_eq cloneRecord_wf abs_store_def update_fresh map_of_eq_None_iff)
  have abs_old: "abs_store n h' s = ?sv"
    using abs_store_append [OF cl valid, of n "MapObj stored # new"] by (simp add: hn)
  have data: "data (abs_store n h' s') =
      AList.update collection (records_of (data ?sv) collection @ [read_record n h' (length h)]) (data ?sv)"
  proof -
    have "data (abs_store n h' s') =
        AList.update collection (map (read_record n h') (records_of_h (r_data s) collection @ [length h]))
          (data (abs_store n h' s))"
      by (simp add: abs_store_def s' s1_def map_update_keys)
    moreover have "map (read_record n h') (records_of_h (r_data s) collection) =
        records_of (data ?sv) collection"
      using records_of_abs [of n h' s] unfolding abs_old by simp
    ultimately show ?thesis
      by (simp add: abs_old)
  qed
  have snd_eq: "abs_store n h' s' = snd (Insert env collection ?rec ?sv)"
  proof -
    have "snd (Insert env collection ?rec ?sv) =
      ?sv\<lparr>nextID := (if map_of ?rec ''id'' = None then nextID ?sv + 1 else nextID ?sv),
           data := AList.update collection
              (records_of (data ?sv) collection @ [stored_record env collection ?rec ?sv]) (data ?sv)\<rparr>"
      using c wfr by (simp add: Insert_snd stored_record_eq cloneRecord_wf)
    moreover have "abs_store n h' s' =
      ?sv\<lparr>nextID := (if map_of ?rec ''id'' = None then nextID ?sv + 1 else nextID ?sv),
           data := data (abs_store n h' s')\<rparr>"
      by (simp add: abs_store_def s' s1_def idn)
    ultimately show ?thesis
      by (simp add: data stored_read stored_val)
  qed
  have fst_err: "snd (fst (Insert env collection ?rec ?sv)) = err"
    using c by (simp add: Insert_fst sv err split: option.splits)
  have ret: "\<exists>r. res = Some r \<and> read_record n h' r = fst (fst (Insert env collection ?rec ?sv))"
    if ok: "err = None"
  proof -
    from ok err have none: "saveLocked_h env s = None" by simp
    with x have res: "res = Some (length h + 1)" and h2: "h' = h @ [MapObj stored, MapObj stored]"
      by simp_all
    have "read_record n h' (length h + 1) = read_record n h' (length h)"
      by (simp add: read_record_def entries_def h2 nth_append)
    moreover have "fst (fst (Insert env collection ?rec ?sv)) = stored_record env collection ?rec ?sv"
    proof -
      have "wf_map (stored_record env collection ?rec ?sv)"
        using wfr by (auto simp: stored_val wf_map_def map_of_eq_None_iff)
      then show ?thesis
        using c wfr none
        by (simp add: Insert_fst sv stored_record_eq cloneRecord_wf)
    qed
    ultimately show ?thesis using res by (simp add: stored_read stored_val)
  qed
  from snd_eq fst_err ret show ?thesis by blast
qed

section \<open>Requests in flight during a reload\<close>

text \<open>
  Claim C1. In every state the process reaches from a successful start, by any interleaving
  of requests and reloads: a request that is being served holds the read side of the
  manager's lock, its runtime is the live one and that runtime's engine is open; whatever
  step any goroutine takes next, the request is still being served by the same runtime, or
  it was its own \<open>RUnlock\<close> and the request has completed on that runtime, and that
  \<open>RUnlock\<close> can always be taken. While any read side is held \<open>Swap\<close> cannot take the
  lock, and while \<open>Swap\<close> holds it no read side is held and no request can take one, so the
  pointer is exchanged only when no request is in flight. An engine that has been closed
  is not the live runtime and serves no request: engines are closed only after they were
  swapped out. No request ever ran on a closed engine.
\<close>

theorem requests_finish_on_their_runtime:
  assumes "steps es (main_start None) = Some p"
  shows "(\<forall>i r. requests p i = Serving r \<longrightarrow>
            i \<in> rlocks p \<and> runtime p = Some r \<and> r \<notin> closed_engines p
            \<and> (\<forall>e p'. step e p = Some p' \<longrightarrow>
                  requests p' i = Serving r \<or> (e = EvRUnlock i \<and> requests p' i = Served r))
            \<and> (\<exists>p'. step (EvRUnlock i) p = Some p' \<and> requests p' i = Served r))
       \<and> (\<forall>i. i \<in> rlocks p \<longrightarrow> step EvSwapLock p = None)
       \<and> (wlock p \<longrightarrow> rlocks p = {} \<and> (\<forall>i. step (EvRLock i) p = None))
       \<and> (\<forall>next. reload p = HasLock next \<longrightarrow> wlock p \<and> rlocks p = {})
       \<and> (\<forall>r. r \<in> closed_engines p \<longrightarrow>
             runtime p \<noteq> Some r \<and> (\<forall>i. requests p i \<noteq> Serving r))
       \<and> faults p = {}"
proof -
  have inv: "lifecycle_inv p" using assms by (rule inv_reachable)
  have serving: "i \<in> rlocks p \<and> runtime p = Some r \<and> r \<notin> closed_engines p"
    if "requests p i = Serving r" for i r
    using inv that unfolding lifecycle_inv_def by auto
  have a: "\<forall>i r. requests p i = Serving r \<longrightarrow>
            i \<in> rlocks p \<and> runtime p = Some r \<and> r \<notin> closed_engines p
            \<and> (\<forall>e p'. step e p = Some p' \<longrightarrow>
                  requests p' i = Serving r \<or> (e = EvRUnlock i \<and> requests p' i = Served r))
            \<and> (\<exists>p'. step (EvRUnlock i) p = Some p' \<and> requests p' i = Served r)"
    using serving step_keeps_serving by (auto simp: ServeHTTP_RUnlock_def)
  have b: "\<forall>i. i \<in> rlocks p \<longrightarrow> step EvSwapLock p = None"
    by (auto simp: Swap_Lock_def split: reload_pc.splits)
  have c: "wlock p \<longrightarrow> rlocks p = {} \<and> (\<forall>i. step (EvRLock i) p = None)"
    using wlock_no_readers [OF inv] by (auto simp: ServeHTTP_RLock_def)
  have d: "\<forall>next. reload p = HasLock next \<longrightarrow> wlock p \<and> rlocks p = {}"
    using inv unfolding lifecycle_inv_def swap_inv_def by auto
  have e: "\<forall>r. r \<in> closed_engines p \<longrightarrow>
             runtime p \<noteq> Some r \<and> (\<forall>i. requests p i \<noteq> Serving r)"
    using inv unfolding lifecycle_inv_def by auto
  have f: "faults p = {}" using inv unfolding lifecycle_inv_def by auto
  from a b c d e f show ?thesis by blast
qed

theorem requests_finish_on_their_runtime_witness:
  "steps [EvRLock 0, EvCurrent 0, EvScriptChanged None, EvRoute 0] (main_start None) =
     Some \<lparr>runtime = Some 0, rlocks = {0}, wlock = False, closed_engines = {}, engines = 2,
          log_lines = [ChangeDetected], exited = False, faults = {},
          requests = (\<lambda>_. NotStarted)(0 := Serving 0), reload = Built 1\<rparr>
   \<and> requests \<lparr>runtime = Some 0, rlocks = {0}, wlock = False, closed_engines = {}, engines = 2,
          log_lines = [ChangeDetected], exited = False, faults = {},
          requests = (\<lambda>_. NotStarted)(0 := Serving 0), reload = Built 1\<rparr> 0 = Serving 0
   \<and> 0 \<in> rlocks \<lparr>runtime = Some 0, rlocks = {0}, wlock = False, closed_engines = {}, engines = 2,
          log_lines = [ChangeDetected], exited = False, faults = {},
          requests = (\<lambda>_. NotStarted)(0 := Serving 0), reload = Built 1\<rparr> \<and> runtime \<lparr>runtime = Some 0, rlocks = {0}, wlock = False, closed_engines = {}, engines = 2,
          log_lines = [ChangeDetected], exited = False, faults = {},
          requests = (\<lambda>_. NotStarted)(0 := Serving 0), reload = Built 1\<rparr> = Some 0 \<and> 0 \<notin> closed_engines \<lparr>runtime = Some 0, rlocks = {0}, wlock = False, closed_engines = {}, engines = 2,
          log_lines = [ChangeDetected], exited = False, faults = {},
          requests = (\<lambda>_. NotStarted)(0 := Serving 0), reload = Built 1\<rparr>
   \<and> step EvSwapLock \<lparr>runtime = Some 0, rlocks = {0}, wlock = False, closed_engines = {}, engines = 2,
          log_lines = [ChangeDetected], exited = False, faults = {},
          requests = (\<lambda>_. NotStarted)(0 := Serving 0), reload = Built 1\<rparr> = None
   \<and> (\<exists>p'. step (EvRUnlock 0) \<lparr>runtime = Some 0, rlocks = {0}, wlock = False, closed_engines = {}, engines = 2,
          log_lines = [ChangeDetected], exited = False, faults = {},
          requests = (\<lambda>_. NotStarted)(0 := Serving 0), reload = Built 1\<rparr> = Some p' \<and> requests p' 0 = Served 0)
   \<and> faults \<lparr>runtime = Some 0, rlocks = {0}, wlock = False, closed_engines = {}, engines = 2,
          log_lines = [ChangeDetected], exited = False, faults = {},
          requests = (\<lambda>_. NotStarted)(0 := Serving 0), reload = Built 1\<rparr> = {}"
proof -
  have reached: "steps [EvRLock 0, EvCurrent 0, EvScriptChanged None, EvRoute 0] (main_start None) =
     Some \<lparr>runtime = Some 0, rlocks = {0}, wlock = False, closed_engines = {}, engines = 2,
          log_lines = [ChangeDetected], exited = False, faults = {},
          requests = (\<lambda>_. NotStarted)(0 := Serving 0), reload = Built 1\<rparr>"
    by (simp add: main_start_def BuildRuntime_def ServeHTTP_RLock_def ServeHTTP_current_def
        ServeHTTP_route_def reload_callback_def)
  from requests_finish_on_their_runtime [OF reached] reached show ?thesis
    by simp
qed

section \<open>Identifiers: consecutive values of a counter, reset from the file at opening\<close>

text \<open>
  Claim C2, amended. From one opening of a store on, over any sequence of queries,
  inserts, updates and deletes, whether or not their saves succeed, the identifiers the
  store assigns are the consecutive values of its counter, in 64-bit arithmetic: the
  first is the counter's value at the start, each next one is one more, and each is the
  \<open>id\<close> of the record the insert stored. They are strictly increasing as long as the
  counter does not pass \<open>2^63 - 1\<close>, and different from one another as long as there
  are at most \<open>2^64\<close> of them; deletes play no part. Opening a store from a file that
  a store has persisted (a JSON object of arrays of record objects) sets the counter to
  one more than the largest of 0 and \<open>int(id)\<close> over the numeric ids in the file, where
  \<open>int(id)\<close> is the integer part of an id whose integer part fits 64 bits. When the
  counter so set lies between 1 and \<open>2^53\<close>, a record then inserted without an \<open>id\<close>
  is stored with the counter's value as its id, and no record of the file has an id that
  \<open>valuesEqual\<close> relates to it.
\<close>

theorem ids_increase_and_survive_reopen:
  "issued pf ops s = map (\<lambda>i. nextID s + of_nat i) [0..<length (issued pf ops s)]
   \<and> nextID (run pf ops s) = nextID s + of_nat (length (issued pf ops s))
   \<and> (sint (nextID s) + int (length (issued pf ops s)) \<le> 2 ^ 63 \<longrightarrow>
        sorted_wrt (<s) (issued pf ops s))
   \<and> (length (issued pf ops s) \<le> 2 ^ 64 \<longrightarrow> distinct (issued pf ops s))
   \<and> (\<forall>n. assigned_id collection rec s = Some n \<longrightarrow>
         map_of (stored_record env collection rec s) ''id'' = Some (GInt n))
   \<and> (p \<noteq> '''' \<longrightarrow>
        Open conv pf p (Payload d) =
          Opened \<lparr>path = p, data = d,
                  nextID = maxID conv pf \<lparr>path = p, data = d, nextID = 1\<rparr> + 1\<rparr>
        \<and> sint (maxID conv pf \<lparr>path = p, data = d, nextID = 1\<rparr>) =
            Max (insert 0 ((\<lambda>value. sint (go_int conv value)) ` set (existing_ids pf d))))
   \<and> (- (2 ^ 63) \<le> (if 0 \<le> x then \<lfloor>x\<rfloor> else \<lceil>x\<rceil>) \<and> (if 0 \<le> x then \<lfloor>x\<rfloor> else \<lceil>x\<rceil>) < 2 ^ 63 \<longrightarrow>
        sint (go_int conv (Finite x)) = (if 0 \<le> x then \<lfloor>x\<rfloor> else \<lceil>x\<rceil>))
   \<and> (p \<noteq> '''' \<and> collection \<noteq> '''' \<and> wf_map rec \<and> map_of rec ''id'' = None \<longrightarrow>
        (\<forall>s'. Open conv pf p (Payload d) = Opened s' \<and> 0 <s nextID s' \<and> nextID s' \<le>s 2 ^ 53 \<longrightarrow>
           map_of (stored_record env collection rec s') ''id'' = Some (GInt (nextID s'))
           \<and> (\<forall>r \<in> set (file_records d). \<forall>v. map_of r ''id'' = Some v \<longrightarrow>
                 \<not> valuesEqual pf v (GInt (nextID s')))))"
proof -
  have a1: "issued pf ops s = map (\<lambda>i. nextID s + of_nat i) [0..<length (issued pf ops s)]"
    by (rule issued_consecutive)
  have a2: "nextID (run pf ops s) = nextID s + of_nat (length (issued pf ops s))"
    by (rule nextID_run)
  have a3: "sorted_wrt (<s) (issued pf ops s)"
    if "sint (nextID s) + int (length (issued pf ops s)) \<le> 2 ^ 63"
    using consecutive_sorted [OF that] a1 by simp
  have a4: "distinct (issued pf ops s)" if "length (issued pf ops s) \<le> 2 ^ 64"
    using consecutive_distinct [OF that, of "nextID s"] a1 by simp
  have c: "\<forall>n. assigned_id collection rec s = Some n \<longrightarrow>
         map_of (stored_record env collection rec s) ''id'' = Some (GInt n)"
    using assigned_id_stored by blast
  have d: "Open conv pf p (Payload d) =
          Opened \<lparr>path = p, data = d,
                  nextID = maxID conv pf \<lparr>path = p, data = d, nextID = 1\<rparr> + 1\<rparr>
        \<and> sint (maxID conv pf \<lparr>path = p, data = d, nextID = 1\<rparr>) =
            Max (insert 0 ((\<lambda>value. sint (go_int conv value)) ` set (existing_ids pf d)))"
    if "p \<noteq> ''''"
    using Open_Payload [OF that, of conv pf d]
      maxID_Max [of conv pf "\<lparr>path = p, data = d, nextID = 1\<rparr>"] by simp
  have g: "- (2 ^ 63) \<le> (if 0 \<le> x then \<lfloor>x\<rfloor> else \<lceil>x\<rceil>) \<and> (if 0 \<le> x then \<lfloor>x\<rfloor> else \<lceil>x\<rceil>) < 2 ^ 63 \<longrightarrow>
        sint (go_int conv (Finite x)) = (if 0 \<le> x then \<lfloor>x\<rfloor> else \<lceil>x\<rceil>)"
    using go_int_in_range [of x conv] by blast
  have e: "map_of (stored_record env collection rec s') ''id'' = Some (GInt (nextID s'))
           \<and> (\<forall>r \<in> set (file_records d). \<forall>v. map_of r ''id'' = Some v \<longrightarrow>
                 \<not> valuesEqual pf v (GInt (nextID s')))"
    if h: "p \<noteq> ''''" "collection \<noteq> ''''" "wf_map rec" "map_of rec ''id'' = None"
      and o: "Open conv pf p (Payload d) = Opened s'"
      and lo: "0 <s nextID s'" and hi: "nextID s' \<le>s 2 ^ 53" for s'
  proof -
    define s0 where "s0 = \<lparr>path = p, data = d, nextID = 1\<rparr>"
    from o Open_Payload [OF h(1), of conv pf d]
    have n: "nextID s' = maxID conv pf s0 + 1" unfolding s0_def by auto
    have small: "sint (maxID conv pf s0) < 2 ^ 53"
      using lo hi maxID_nonneg [of conv pf s0] unfolding n by (rule counter_small)
    have "map_of (stored_record env collection rec s') ''id'' = Some (GInt (nextID s'))"
      using h by (simp add: stored_record_eq cloneRecord_wf update_conv')
    moreover have "\<not> valuesEqual pf v (GInt (nextID s'))"
      if "r \<in> set (file_records d)" "map_of r ''id'' = Some v" for r v
      unfolding n using that small by (intro not_in_file [of r s0]) (simp_all add: s0_def)
    ultimately show ?thesis by blast
  qed
  from a1 a2 a3 a4 c d g e show ?thesis by blast
qed

theorem ids_increase_and_survive_reopen_witness:
  "issued (\<lambda>_. None)
     [OpInsert no_failure ''users'' [(''name'', GString ''Ada'')],
      OpDelete no_failure ''users'' [],
      OpInsert no_failure ''users'' [(''name'', GString ''Bob'')]]
     \<lparr>path = '''', data = [], nextID = 1\<rparr> = [1, 2]
   \<and> sint (1 :: 64 word) + int (length [1, 2 :: 64 word]) \<le> 2 ^ 63
   \<and> sorted_wrt (<s) [1, 2 :: 64 word]
   \<and> length [1, 2 :: 64 word] \<le> 2 ^ 64
   \<and> distinct [1, 2 :: 64 word]
   \<and> nextID (run (\<lambda>_. None)
     [OpInsert no_failure ''users'' [(''name'', GString ''Ada'')],
      OpDelete no_failure ''users'' [],
      OpInsert no_failure ''users'' [(''name'', GString ''Bob'')]]
     \<lparr>path = '''', data = [], nextID = 1\<rparr>) = 3
   \<and> ''sugardb.json'' \<noteq> '''' \<and> ''users'' \<noteq> ''''
   \<and> wf_map [(''name'', GString ''Eve'')]
   \<and> map_of [(''name'', GString ''Eve'')] ''id'' = None
   \<and> - (2 ^ 63) \<le> \<lfloor>3 :: real\<rfloor> \<and> \<lfloor>3 :: real\<rfloor> < 2 ^ 63
   \<and> sint (go_int (\<lambda>_. 0) (Finite 3)) = 3
   \<and> Open (\<lambda>_. 0) (\<lambda>_. None) ''sugardb.json''
        (Payload [(''users'', [[(''id'', GFloat64 (Finite 3)), (''name'', GString ''Ada'')]])]) =
      Opened \<lparr>path = ''sugardb.json'',
           data = [(''users'', [[(''id'', GFloat64 (Finite 3)), (''name'', GString ''Ada'')]])],
           nextID = 4\<rparr>
   \<and> (0 :: 64 word) <s 4 \<and> (4 :: 64 word) \<le>s 2 ^ 53
   \<and> map_of (stored_record no_failure ''users'' [(''name'', GString ''Eve'')]
        \<lparr>path = ''sugardb.json'',
         data = [(''users'', [[(''id'', GFloat64 (Finite 3)), (''name'', GString ''Ada'')]])],
         nextID = 4\<rparr>) ''id'' = Some (GInt 4)
   \<and> \<not> valuesEqual (\<lambda>_. None) (GFloat64 (Finite 3)) (GInt 4)"
proof -
  have opened: "Open (\<lambda>_. 0) (\<lambda>_. None) ''sugardb.json''
        (Payload [(''users'', [[(''id'', GFloat64 (Finite 3)), (''name'', GString ''Ada'')]])]) =
      Opened \<lparr>path = ''sugardb.json'',
           data = [(''users'', [[(''id'', GFloat64 (Finite 3)), (''name'', GString ''Ada'')]])],
           nextID = 4\<rparr>"
    by (simp add: Open_def maxID_def index_def go_int_def word_sless_alt)
  have issued: "issued (\<lambda>_. None)
     [OpInsert no_failure ''users'' [(''name'', GString ''Ada'')],
      OpDelete no_failure ''users'' [],
      OpInsert no_failure ''users'' [(''name'', GString ''Bob'')]]
     \<lparr>path = '''', data = [], nextID = 1\<rparr> = [1, 2]"
    by (simp add: assigned_id_def cloneRecord_def Insert_def Delete_def records_of_def
        saveLocked_def matches_def no_failure_def)
  from ids_increase_and_survive_reopen
    [where pf = "\<lambda>_. None" and conv = "\<lambda>_. 0"
       and ops = "[OpInsert no_failure ''users'' [(''name'', GString ''Ada'')],
                   OpDelete no_failure ''users'' [],
                   OpInsert no_failure ''users'' [(''name'', GString ''Bob'')]]"
       and s = "\<lparr>path = '''', data = [], nextID = 1\<rparr>"
       and collection = "''users''" and rec = "[(''name'', GString ''Eve'')]"
       and env = no_failure and p = "''sugardb.json''" and x = 3
       and d = "[(''users'', [[(''id'', GFloat64 (Finite 3)), (''name'', GString ''Ada'')]])]"]
  show ?thesis
    by (simp add: opened issued wf_map_def file_records_def word_sless_alt word_sle_eq
        del: issued.simps)
qed

text \<open>
  The claim as first stated fails in four ways. The counter after loading is not
  \<open>max(existing ids) + 1\<close>: \<open>maxID\<close> starts from 0, so a file whose only id is \<open>-5\<close>
  gives 1 where the formula gives \<open>-4\<close>. An identifier is reused after a delete: a
  store assigns 1, 2 and 3 and deletes the record with id 3; the file it has written holds
  the ids 1 and 2 (read back as float64), a store opened from it has the counter 3, and
  its next insert is assigned 3 again. A reopened store can assign an id present in the
  file: from a file whose only id is \<open>2^53\<close> the counter is \<open>2^53 + 1\<close>, which
  \<open>valuesEqual\<close> relates to \<open>2^53\<close>. And the identifiers are not always increasing: a
  store whose counter is \<open>2^63 - 1\<close> assigns \<open>2^63 - 1\<close> and then \<open>-2^63\<close>.
\<close>

theorem assigned_ids_can_repeat:
  "Open (\<lambda>_. 0) (\<lambda>_. None) ''sugardb.json''
       (Payload [(''users'', [[(''id'', GFloat64 (Finite (- 5)))]])]) =
     Opened \<lparr>path = ''sugardb.json'',
             data = [(''users'', [[(''id'', GFloat64 (Finite (- 5)))]])], nextID = 1\<rparr>
   \<and> spec_next_id (\<lambda>_. None) [(''users'', [[(''id'', GFloat64 (Finite (- 5)))]])] = - 4
   \<and> issued (\<lambda>_. None)
        [OpInsert no_failure ''users'' [(''name'', GString ''Ada'')],
         OpInsert no_failure ''users'' [(''name'', GString ''Bob'')],
         OpInsert no_failure ''users'' [(''name'', GString ''Eve'')],
         OpDelete no_failure ''users'' [(''name'', GString ''Eve'')]]
        \<lparr>path = ''sugardb.json'', data = [], nextID = 1\<rparr> = [1, 2, 3]
   \<and> data (run (\<lambda>_. None)
        [OpInsert no_failure ''users'' [(''name'', GString ''Ada'')],
         OpInsert no_failure ''users'' [(''name'', GString ''Bob'')],
         OpInsert no_failure ''users'' [(''name'', GString ''Eve'')],
         OpDelete no_failure ''users'' [(''name'', GString ''Eve'')]]
        \<lparr>path = ''sugardb.json'', data = [], nextID = 1\<rparr>) =
       [(''users'', [[(''name'', GString ''Ada''), (''id'', GInt 1)],
                     [(''name'', GString ''Bob''), (''id'', GInt 2)]])]
   \<and> Open (\<lambda>_. 0) (\<lambda>_. None) ''sugardb.json''
       (Payload [(''users'', [[(''name'', GString ''Ada''), (''id'', GFloat64 (Finite 1))],
                              [(''name'', GString ''Bob''), (''id'', GFloat64 (Finite 2))]])]) =
     Opened \<lparr>path = ''sugardb.json'',
             data = [(''users'', [[(''name'', GString ''Ada''), (''id'', GFloat64 (Finite 1))],
                                  [(''name'', GString ''Bob''), (''id'', GFloat64 (Finite 2))]])],
             nextID = 3\<rparr>
   \<and> issued (\<lambda>_. None) [OpInsert no_failure ''users'' [(''name'', GString ''Zoe'')]]
        \<lparr>path = ''sugardb.json'',
         data = [(''users'', [[(''name'', GString ''Ada''), (''id'', GFloat64 (Finite 1))],
                              [(''name'', GString ''Bob''), (''id'', GFloat64 (Finite 2))]])],
         nextID = 3\<rparr> = [3]
   \<and> Open (\<lambda>_. 0) (\<lambda>_. None) ''sugardb.json''
       (Payload [(''users'', [[(''id'', GFloat64 (Finite 9007199254740992))]])]) =
     Opened \<lparr>path = ''sugardb.json'',
             data = [(''users'', [[(''id'', GFloat64 (Finite 9007199254740992))]])],
             nextID = 9007199254740993\<rparr>
   \<and> map_of (stored_record no_failure ''users'' [(''name'', GString ''Ada'')]
        \<lparr>path = ''sugardb.json'',
         data = [(''users'', [[(''id'', GFloat64 (Finite 9007199254740992))]])],
         nextID = 9007199254740993\<rparr>) ''id'' = Some (GInt 9007199254740993)
   \<and> valuesEqual (\<lambda>_. None) (GFloat64 (Finite 9007199254740992)) (GInt 9007199254740993)
   \<and> issued (\<lambda>_. None)
        [OpInsert no_failure ''users'' [(''name'', GString ''Ada'')],
         OpInsert no_failure ''users'' [(''name'', GString ''Bob'')]]
        \<lparr>path = '''', data = [], nextID = 9223372036854775807\<rparr> =
       [9223372036854775807, - 9223372036854775808]
   \<and> \<not> sorted_wrt (<s) [9223372036854775807, - 9223372036854775808 :: 64 word]"
  by (simp add: Open_def maxID_def index_def go_int_def word_sless_alt
      spec_next_id_def finite_ids_def existing_ids_def record_ids_def file_records_def
      assigned_id_def cloneRecord_def Insert_def Delete_def records_of_def
      saveLocked_def matches_def no_failure_def valuesEqual_def float64_eq_def
      stored_record_def float64_of_int_2_53_1)

section \<open>Insert keeps a supplied identifier and assigns the others from the counter\<close>

text \<open>
  Claim C3, amended. \<open>Insert\<close> into a named collection stores a record that has an \<open>id\<close>
  field exactly as it was supplied, the id included, and leaves the counter alone; a record
  without an \<open>id\<close> is stored with the counter's value as its id, and the counter moves
  on by one, in 64-bit arithmetic. When the save succeeds the stored record is what
  \<open>Insert\<close> returns. Of two consecutive inserts of records without ids into one store,
  whatever their collections and whatever their saves answer, the first receives the
  counter's value and the second that value plus one: the two ids are different, and the
  second is greater than the first exactly when the first is not \<open>2^63 - 1\<close>, the
  largest \<open>int\<close>.
\<close>

theorem insert_keeps_or_assigns_id:
  assumes "collection \<noteq> ''''" and "wf_map rec"
  shows "(\<forall>v. map_of rec ''id'' = Some v \<longrightarrow>
            stored_record env collection rec s = rec
            \<and> map_of (stored_record env collection rec s) ''id'' = Some v
            \<and> nextID (snd (Insert env collection rec s)) = nextID s)
       \<and> (map_of rec ''id'' = None \<longrightarrow>
            stored_record env collection rec s = rec @ [(''id'', GInt (nextID s))]
            \<and> nextID (snd (Insert env collection rec s)) = nextID s + 1)
       \<and> (saveLocked env s = None \<longrightarrow>
            fst (Insert env collection rec s) =
              (stored_record env collection rec s, None))
       \<and> (map_of rec ''id'' = None \<and> collection' \<noteq> '''' \<and> wf_map rec'
            \<and> map_of rec' ''id'' = None \<longrightarrow>
            (\<exists>n n'. map_of (stored_record env collection rec s) ''id'' = Some (GInt n)
               \<and> map_of (stored_record env' collection' rec'
                     (snd (Insert env collection rec s))) ''id'' = Some (GInt n')
               \<and> n = nextID s \<and> n' = n + 1 \<and> n \<noteq> n'
               \<and> (n <s n' \<longleftrightarrow> n \<noteq> 2 ^ 63 - 1)))"
proof -
  have clone: "cloneRecord rec = rec" using assms(2) by (rule cloneRecord_wf)
  have fresh: "map_of rec ''id'' = None \<Longrightarrow> ''id'' \<notin> fst ` set rec"
    by (simp add: map_of_eq_None_iff)
  have a: "\<forall>v. map_of rec ''id'' = Some v \<longrightarrow>
            stored_record env collection rec s = rec
            \<and> map_of (stored_record env collection rec s) ''id'' = Some v
            \<and> nextID (snd (Insert env collection rec s)) = nextID s"
    using assms(1) by (simp add: stored_record_eq Insert_snd clone)
  have b: "map_of rec ''id'' = None \<longrightarrow>
            stored_record env collection rec s = rec @ [(''id'', GInt (nextID s))]
            \<and> nextID (snd (Insert env collection rec s)) = nextID s + 1"
    using assms(1) fresh by (simp add: stored_record_eq Insert_snd clone update_fresh)
  have wf_stored: "wf_map (stored_record env collection rec s)"
    using assms by (simp add: stored_record_eq clone wf_map_update)
  have c: "saveLocked env s = None \<longrightarrow>
            fst (Insert env collection rec s) = (stored_record env collection rec s, None)"
    using assms(1) wf_stored cloneRecord_wf [OF wf_stored]
    by (auto simp: Insert_fst stored_record_eq clone)
  have d: "\<exists>n n'. map_of (stored_record env collection rec s) ''id'' = Some (GInt n)
               \<and> map_of (stored_record env' collection' rec'
                     (snd (Insert env collection rec s))) ''id'' = Some (GInt n')
               \<and> n = nextID s \<and> n' = n + 1 \<and> n \<noteq> n'
               \<and> (n <s n' \<longleftrightarrow> n \<noteq> 2 ^ 63 - 1)"
    if h: "map_of rec ''id'' = None" "collection' \<noteq> ''''" "wf_map rec'"
      "map_of rec' ''id'' = None"
  proof -
    have "map_of (stored_record env collection rec s) ''id'' = Some (GInt (nextID s))"
      using assms(1) h(1) by (simp add: stored_record_eq clone update_conv')
    moreover have "map_of (stored_record env' collection' rec'
          (snd (Insert env collection rec s))) ''id'' = Some (GInt (nextID s + 1))"
      using assms(1) h by (simp add: stored_record_eq cloneRecord_wf update_conv' Insert_snd clone)
    moreover have "nextID s \<noteq> nextID s + 1" by simp
    moreover have "nextID s <s nextID s + 1 \<longleftrightarrow> nextID s \<noteq> 2 ^ 63 - 1" by (rule sless_succ)
    ultimately show ?thesis by blast
  qed
  from a b c d show ?thesis by blast
qed

theorem insert_keeps_or_assigns_id_witness:
  "''users'' \<noteq> '''' \<and> wf_map [(''name'', GString ''Ada'')]
   \<and> map_of [(''name'', GString ''Ada'')] ''id'' = None
   \<and> wf_map [(''name'', GString ''Bob'')] \<and> map_of [(''name'', GString ''Bob'')] ''id'' = None
   \<and> stored_record no_failure ''users'' [(''name'', GString ''Ada'')]
        \<lparr>path = '''', data = [], nextID = 1\<rparr> = [(''name'', GString ''Ada''), (''id'', GInt 1)]
   \<and> fst (Insert no_failure ''users'' [(''name'', GString ''Ada'')] \<lparr>path = '''', data = [], nextID = 1\<rparr>)
        = ([(''name'', GString ''Ada''), (''id'', GInt 1)], None)
   \<and> map_of (stored_record no_failure ''users'' [(''name'', GString ''Bob'')]
        (snd (Insert no_failure ''users'' [(''name'', GString ''Ada'')]
           \<lparr>path = '''', data = [], nextID = 1\<rparr>))) ''id'' = Some (GInt 2)
   \<and> (1 :: 64 word) \<noteq> 2 ^ 63 - 1
   \<and> (1 :: 64 word) <s 2"
  using insert_keeps_or_assigns_id
    [where collection = "''users''" and rec = "[(''name'', GString ''Ada'')]"
       and env = no_failure and s = "\<lparr>path = '''', data = [], nextID = 1\<rparr>"
       and collection' = "''users''" and rec' = "[(''name'', GString ''Bob'')]"
       and env' = no_failure]
  by (simp add: wf_map_def saveLocked_def stored_record_def Insert_def cloneRecord_def
      records_of_def no_failure_def word_sless_alt)

text \<open>
  The claim as first stated has the second id always greater than the first. In a store
  whose counter is \<open>2^63 - 1\<close> (reached from a file whose largest id is near \<open>2^63\<close>),
  \<open>s.nextID++\<close> wraps around: the first insert is assigned \<open>2^63 - 1\<close> and the second
  \<open>-2^63\<close>, which is smaller.
\<close>

theorem second_id_below_first:
  "map_of (stored_record no_failure ''users'' [(''name'', GString ''Ada'')]
        \<lparr>path = '''', data = [], nextID = 9223372036854775807\<rparr>) ''id''
     = Some (GInt 9223372036854775807)
   \<and> map_of (stored_record no_failure ''users'' [(''name'', GString ''Bob'')]
        (snd (Insert no_failure ''users'' [(''name'', GString ''Ada'')]
           \<lparr>path = '''', data = [], nextID = 9223372036854775807\<rparr>))) ''id''
     = Some (GInt (- 9223372036854775808))
   \<and> sint (9223372036854775807 :: 64 word) = 9223372036854775807
   \<and> sint (- 9223372036854775808 :: 64 word) = - 9223372036854775808
   \<and> \<not> (9223372036854775807 :: 64 word) <s - 9223372036854775808"
  by (simp add: wf_map_def saveLocked_def stored_record_def Insert_def cloneRecord_def
      records_of_def no_failure_def word_sless_alt)

section \<open>Matching a record against criteria\<close>

text \<open>
  Claim C4, amended. \<open>matches\<close> holds when the criteria are empty; in general it holds
  exactly when every criterion key is present in the record with a value that
  \<open>valuesEqual\<close> relates to the criterion's value. The numeric-like values are Go's int,
  int64, float64 and float32, and a \<open>json.Number\<close> whose text parses. \<open>numberValue\<close>
  converts each to a float64: an integer to the nearest float64, which is the integer
  itself when its magnitude is at most \<open>2^53\<close>, a float to itself, a \<open>json.Number\<close> to
  what its text parses to; of nil, a bool, a string, a byte slice, a slice or a map it has
  no result. \<open>valuesEqual\<close> holds of two numeric-like values exactly when the two
  float64 are equal under \<open>==\<close>, that is when neither is NaN and they are the same; for
  finite floats and integers up to \<open>2^53\<close> in magnitude that is the equality of their
  numeric values. Of any other pair it holds exactly when \<open>reflect.DeepEqual\<close> holds of
  it. \<open>DeepEqual\<close> of a value without nesting that is not NaN and any value is their
  being the same value of the same dynamic type; of two slices it is \<open>DeepEqual\<close>
  element by element, of two maps their having equally many keys and \<open>DeepEqual\<close>
  values at every key; and it holds of every value without NaN and itself. The rounding
  of integers is to the nearest float64, to the even one of two equally near:
  \<open>float64(2^53 + 1)\<close> is \<open>2^53\<close>, \<open>float64(2^53 + 3)\<close> is \<open>2^53 + 4\<close> and
  \<open>float64(2^63 - 1)\<close> is \<open>2^63\<close>.
\<close>

theorem matches_and_valuesEqual:
  "(criteria = [] \<longrightarrow> matches pf rec criteria)
   \<and> (matches pf rec criteria \<longleftrightarrow>
        (\<forall>(key, expected) \<in> set criteria.
           \<exists>actual. map_of rec key = Some actual \<and> valuesEqual pf actual expected))
   \<and> numberValue pf (GInt i) = Some (float64_of_int (sint i))
   \<and> numberValue pf (GInt64 i) = Some (float64_of_int (sint i))
   \<and> numberValue pf (GFloat64 x) = Some x
   \<and> numberValue pf (GFloat32 x) = Some x
   \<and> numberValue pf (GJsonNumber text) = pf text
   \<and> numberValue pf GNil = None
   \<and> numberValue pf (GBool b) = None
   \<and> numberValue pf (GString str) = None
   \<and> numberValue pf (GBytes bytes) = None
   \<and> numberValue pf (GSlice xs) = None
   \<and> numberValue pf (GMap m) = None
   \<and> (\<bar>j\<bar> \<le> 2 ^ 53 \<longrightarrow> float64_of_int j = Finite (real_of_int j))
   \<and> (\<forall>a b. numberValue pf left = Some a \<and> numberValue pf right = Some b \<longrightarrow>
         (valuesEqual pf left right \<longleftrightarrow> a \<noteq> NaN \<and> b \<noteq> NaN \<and> a = b))
   \<and> (exact_number pf left \<and> exact_number pf right \<longrightarrow>
         (valuesEqual pf left right \<longleftrightarrow> numeric_value pf left = numeric_value pf right))
   \<and> (numberValue pf left = None \<or> numberValue pf right = None \<longrightarrow>
         (valuesEqual pf left right \<longleftrightarrow> deepEqual left right))
   \<and> (scalar left \<and> nan_free left \<longrightarrow> (deepEqual left right \<longleftrightarrow> left = right))
   \<and> (wf_val left \<and> nan_free left \<longrightarrow> deepEqual left left)
   \<and> (deepEqual (GSlice xs) (GSlice ys) \<longleftrightarrow> list_all2 deepEqual xs ys)
   \<and> (deepEqual (GMap m) (GMap m') \<longleftrightarrow>
         length m = length m'
         \<and> (\<forall>(key, v) \<in> set m. \<exists>w. map_of m' key = Some w \<and> deepEqual v w))
   \<and> float64_of_int 9007199254740993 = Finite 9007199254740992
   \<and> float64_of_int 9007199254740995 = Finite 9007199254740996
   \<and> float64_of_int 9223372036854775807 = Finite 9223372036854775808"
proof -
  have a: "criteria = [] \<longrightarrow> matches pf rec criteria" by (simp add: matches_def)
  have b: "matches pf rec criteria \<longleftrightarrow>
        (\<forall>(key, expected) \<in> set criteria.
           \<exists>actual. map_of rec key = Some actual \<and> valuesEqual pf actual expected)"
    by (rule matches_iff)
  have c: "\<bar>j\<bar> \<le> 2 ^ 53 \<longrightarrow> float64_of_int j = Finite (real_of_int j)"
    using float64_of_int_exact by blast
  have d: "\<forall>a b. numberValue pf left = Some a \<and> numberValue pf right = Some b \<longrightarrow>
         (valuesEqual pf left right \<longleftrightarrow> a \<noteq> NaN \<and> b \<noteq> NaN \<and> a = b)"
    by (simp add: valuesEqual_def float64_eq_def)
  have e: "exact_number pf left \<and> exact_number pf right \<longrightarrow>
         (valuesEqual pf left right \<longleftrightarrow> numeric_value pf left = numeric_value pf right)"
    using valuesEqual_exact by blast
  have f: "numberValue pf left = None \<or> numberValue pf right = None \<longrightarrow>
         (valuesEqual pf left right \<longleftrightarrow> deepEqual left right)"
    by (auto simp: valuesEqual_def split: option.splits)
  have g: "scalar left \<and> nan_free left \<longrightarrow> (deepEqual left right \<longleftrightarrow> left = right)"
    using deepEqual_scalar by blast
  have h: "wf_val left \<and> nan_free left \<longrightarrow> deepEqual left left"
    using deepEqual_refl by blast
  have k: "deepEqual (GMap m) (GMap m') \<longleftrightarrow>
         length m = length m'
         \<and> (\<forall>(key, v) \<in> set m. \<exists>w. map_of m' key = Some w \<and> deepEqual v w)"
    by (auto simp: list_all_iff split: option.splits)
  from a b c d e f g h k float64_of_int_2_53_1 float64_of_int_2_53_3 float64_of_int_max
  show ?thesis by simp
qed

theorem matches_and_valuesEqual_witness:
  "[(''role'', GString ''pilot''), (''id'', GFloat64 (Finite 1))] \<noteq> []
   \<and> matches (\<lambda>_. None) [(''id'', GInt 1), (''name'', GString ''Ada''), (''role'', GString ''pilot'')]
        [(''role'', GString ''pilot''), (''id'', GFloat64 (Finite 1))]
   \<and> map_of [(''id'', GInt 1), (''name'', GString ''Ada''), (''role'', GString ''pilot'')] ''role''
        = Some (GString ''pilot'')
   \<and> valuesEqual (\<lambda>_. None) (GString ''pilot'') (GString ''pilot'')
   \<and> map_of [(''id'', GInt 1), (''name'', GString ''Ada''), (''role'', GString ''pilot'')] ''id''
        = Some (GInt 1)
   \<and> \<bar>1 :: int\<bar> \<le> 2 ^ 53
   \<and> float64_of_int 1 = Finite 1
   \<and> numberValue (\<lambda>_. None) (GInt 1) = Some (Finite 1)
   \<and> numberValue (\<lambda>_. None) (GFloat64 (Finite 1)) = Some (Finite 1)
   \<and> exact_number (\<lambda>_. None) (GInt 1) \<and> exact_number (\<lambda>_. None) (GFloat64 (Finite 1))
   \<and> numeric_value (\<lambda>_. None) (GInt 1) = numeric_value (\<lambda>_. None) (GFloat64 (Finite 1))
   \<and> valuesEqual (\<lambda>_. None) (GInt 1) (GFloat64 (Finite 1))
   \<and> numberValue (\<lambda>_. None) (GString ''1'') = None
   \<and> \<not> valuesEqual (\<lambda>_. None) (GString ''1'') (GFloat64 (Finite 1))
   \<and> \<not> deepEqual (GString ''1'') (GFloat64 (Finite 1))
   \<and> scalar (GString ''1'') \<and> nan_free (GString ''1'')
   \<and> wf_val (GMap [(''craft'', GMap [(''callsign'', GString ''Eagle'')])])
   \<and> nan_free (GMap [(''craft'', GMap [(''callsign'', GString ''Eagle'')])])
   \<and> deepEqual (GMap [(''craft'', GMap [(''callsign'', GString ''Eagle'')])])
        (GMap [(''craft'', GMap [(''callsign'', GString ''Eagle'')])])"
  using matches_and_valuesEqual
    [where pf = "\<lambda>_. None"
       and criteria = "[(''role'', GString ''pilot''), (''id'', GFloat64 (Finite 1))]"
       and rec = "[(''id'', GInt 1), (''name'', GString ''Ada''), (''role'', GString ''pilot'')]"
       and left = "GInt 1" and right = "GFloat64 (Finite 1)" and j = 1 and i = 1]
    matches_and_valuesEqual
    [where pf = "\<lambda>_. None" and left = "GString ''1''" and right = "GFloat64 (Finite 1)"]
    matches_and_valuesEqual
    [where left = "GMap [(''craft'', GMap [(''callsign'', GString ''Eagle'')])]"]
  by (simp add: valuesEqual_def scalar_def wf_map_def exact_number_def numeric_value_def
      float64_eq_def)

text \<open>
  The claim as first stated has two numeric-like values \<open>valuesEqual\<close> exactly when
  their numeric values are equal. The integers \<open>2^53\<close> and \<open>2^53 + 1\<close> are different
  and \<open>valuesEqual\<close> holds of them, as \<open>float64(2^53 + 1)\<close> is \<open>2^53\<close>; and the
  float64 NaN is not \<open>valuesEqual\<close> to itself.
\<close>

theorem valuesEqual_rounds_integers:
  "valuesEqual (\<lambda>_. None) (GInt 9007199254740992) (GInt 9007199254740993)
   \<and> numeric_value (\<lambda>_. None) (GInt 9007199254740992) = Some 9007199254740992
   \<and> numeric_value (\<lambda>_. None) (GInt 9007199254740993) = Some 9007199254740993
   \<and> numeric_value (\<lambda>_. None) (GInt 9007199254740992)
       \<noteq> numeric_value (\<lambda>_. None) (GInt 9007199254740993)
   \<and> \<not> valuesEqual (\<lambda>_. None) (GFloat64 NaN) (GFloat64 NaN)"
  by (simp add: valuesEqual_def numeric_value_def float64_eq_def float64_of_int_2_53_1
      float64_of_int_exact)

section \<open>The collection name is required; queries always succeed\<close>

text \<open>
  Claim C5. \<open>Query\<close>, \<open>Insert\<close>, \<open>Update\<close> and \<open>Delete\<close> called with the empty collection
  name return the error ``collection is required'' and leave the store as it was. \<open>Query\<close>
  with a collection name returns no error and leaves the store as it was; its result is the
  sequence of the collection's records that match the criteria, in their order, and the
  empty sequence when the store has no such collection.
\<close>

theorem empty_collection_rejected_query_total:
  "Query pf '''' criteria s = (([], Some ''collection is required''), s)
   \<and> Insert env '''' rec s = (([], Some ''collection is required''), s)
   \<and> Update pf env '''' criteria updates s = ((0, Some ''collection is required''), s)
   \<and> Delete pf env '''' criteria s = ((0, Some ''collection is required''), s)
   \<and> (collection \<noteq> '''' \<longrightarrow>
        snd (fst (Query pf collection criteria s)) = None
        \<and> snd (Query pf collection criteria s) = s
        \<and> ((\<forall>r \<in> set (records_of (data s) collection). wf_map r) \<longrightarrow>
             fst (fst (Query pf collection criteria s)) =
               filter (\<lambda>rec. matches pf rec criteria) (records_of (data s) collection))
        \<and> (map_of (data s) collection = None \<longrightarrow> fst (fst (Query pf collection criteria s)) = []))"
proof -
  have "map cloneRecord (filter P rs) = filter P rs" if "\<forall>r \<in> set rs. wf_map r" for P rs
    using that by (induction rs) (auto simp: cloneRecord_wf)
  then show ?thesis
    by (auto simp: Query_def Insert_def Update_def Delete_def records_of_def)
qed

theorem empty_collection_rejected_query_total_witness:
  "''users'' \<noteq> ''''
   \<and> records_of
          [(''users'', [[(''id'', GInt 1), (''role'', GString ''pilot'')],
                        [(''id'', GInt 2), (''role'', GString ''cook'')]])] ''users'' =
        [[(''id'', GInt 1), (''role'', GString ''pilot'')],
         [(''id'', GInt 2), (''role'', GString ''cook'')]]
   \<and> wf_map [(''id'', GInt 1), (''role'', GString ''pilot'')]
   \<and> wf_map [(''id'', GInt 2), (''role'', GString ''cook'')]
   \<and> Query (\<lambda>_. None) ''users'' [(''role'', GString ''pilot'')]
        \<lparr>path = '''',
         data = [(''users'', [[(''id'', GInt 1), (''role'', GString ''pilot'')],
                              [(''id'', GInt 2), (''role'', GString ''cook'')]])],
         nextID = 3\<rparr> =
       (([[(''id'', GInt 1), (''role'', GString ''pilot'')]], None),
        \<lparr>path = '''',
         data = [(''users'', [[(''id'', GInt 1), (''role'', GString ''pilot'')],
                              [(''id'', GInt 2), (''role'', GString ''cook'')]])],
         nextID = 3\<rparr>)
   \<and> map_of [(''users'', [[(''id'', GInt 1), (''role'', GString ''pilot'')],
                          [(''id'', GInt 2), (''role'', GString ''cook'')]])] ''crew'' = None
   \<and> fst (fst (Query (\<lambda>_. None) ''crew'' [(''role'', GString ''pilot'')]
        \<lparr>path = '''',
         data = [(''users'', [[(''id'', GInt 1), (''role'', GString ''pilot'')],
                              [(''id'', GInt 2), (''role'', GString ''cook'')]])],
         nextID = 3\<rparr>)) = []"
  using empty_collection_rejected_query_total
    [where pf = "\<lambda>_. None" and collection = "''users''"
       and criteria = "[(''role'', GString ''pilot'')]"
       and s = "\<lparr>path = '''',
         data = [(''users'', [[(''id'', GInt 1), (''role'', GString ''pilot'')],
                              [(''id'', GInt 2), (''role'', GString ''cook'')]])],
         nextID = 3\<rparr>"]
    empty_collection_rejected_query_total
    [where pf = "\<lambda>_. None" and collection = "''crew''"
       and criteria = "[(''role'', GString ''pilot'')]"
       and s = "\<lparr>path = '''',
         data = [(''users'', [[(''id'', GInt 1), (''role'', GString ''pilot'')],
                              [(''id'', GInt 2), (''role'', GString ''cook'')]])],
         nextID = 3\<rparr>"]
  by (simp add: records_of_def wf_map_def matches_def valuesEqual_def prod_eq_iff)

section \<open>What Insert and Query share with their callers\<close>

text \<open>
  Claim C6, amended. \<open>Insert\<close> appends a copy of the record's top level: a new map object
  (no object that existed before is changed, the caller's record included) that holds the
  supplied fields, and the assigned id when none was supplied; nested maps and slices are
  not copied, the new object holds the same references. When the save succeeds it returns
  a second new object with the fields of the stored one, the id included. \<open>Query\<close>
  returns, without error and without changing the store or any existing object, one new
  object for each matching record of the collection, in order, with that record's fields.
  So assigning to a field of a record obtained from \<open>Insert\<close> or \<open>Query\<close> (or of the
  record supplied) leaves the fields of the store's records as they are.
\<close>

theorem insert_and_query_copy_top_level:
  "(collection \<noteq> '''' \<and> a < length h \<and> wf_map (entries h a)
      \<and> Insert_h env collection (Some a) s h = ((res, err), s', h') \<longrightarrow>
        last (records_of_h (r_data s') collection) = length h
      \<and> take (length h) h' = h
      \<and> entries h' (length h) =
          (if map_of (entries h a) ''id'' = None
           then entries h a @ [(''id'', HInt (r_nextID s))] else entries h a)
      \<and> (err = None \<longrightarrow>
            res = Some (length h + 1) \<and> entries h' (length h + 1) = entries h' (length h))
      \<and> (\<forall>x key value. x \<noteq> length h \<longrightarrow>
            entries (set_field x key value h') (length h) = entries h' (length h)))
   \<and> (collection \<noteq> '''' \<and> closed_heap h \<and> criteria < length h
      \<and> (\<forall>r \<in> set (records_of_h (r_data s) collection). r < length h \<and> wf_map (entries h r))
      \<and> Query_h pf n collection criteria s h = ((result, qerr), qs, qh) \<longrightarrow>
        qerr = None \<and> qs = s \<and> take (length h) qh = h
      \<and> result = [length h ..< length qh]
      \<and> map (entries qh) result =
          map (entries h)
            (filter (\<lambda>r. matches_h pf n h r criteria) (records_of_h (r_data s) collection))
      \<and> (\<forall>x \<in> set result. \<forall>r \<in> set (records_of_h (r_data s) collection). \<forall>key value.
            entries (set_field x key value qh) r = entries qh r \<and> entries qh r = entries h r))"
proof (rule conjI; rule impI)
  assume ins: "collection \<noteq> '''' \<and> a < length h \<and> wf_map (entries h a)
      \<and> Insert_h env collection (Some a) s h = ((res, err), s', h')"
  then have c: "collection \<noteq> ''''" and wf: "wf_map (entries h a)"
    and eq: "Insert_h env collection (Some a) s h = ((res, err), s', h')" by simp_all
  define stored where "stored = (if map_of (entries h a) ''id'' = None
                   then entries h a @ [(''id'', HInt (r_nextID s))] else entries h a)"
  have x: "((res, err), s', h') =
    (let stored = (if map_of (entries h a) ''id'' = None
                   then entries h a @ [(''id'', HInt (r_nextID s))] else entries h a);
         s' = s\<lparr>r_nextID := (if map_of (entries h a) ''id'' = None
                               then r_nextID s + 1 else r_nextID s),
                 r_data := AList.update collection
                             (records_of_h (r_data s) collection @ [length h]) (r_data s)\<rparr>
     in case saveLocked_h env s of
          Some err \<Rightarrow> ((None, Some err), s', h @ [MapObj stored])
        | None \<Rightarrow> ((Some (length h + 1), None), s', h @ [MapObj stored, MapObj stored]))"
    using Insert_h_Some [OF c wf, of env s] unfolding eq .
  have s': "r_data s' = AList.update collection
                             (records_of_h (r_data s) collection @ [length h]) (r_data s)"
    and h': "h' = (if err = None then h @ [MapObj stored, MapObj stored] else h @ [MapObj stored])"
    and r: "err = None \<longrightarrow> res = Some (length h + 1)"
  proof -
    show "r_data s' = AList.update collection
                             (records_of_h (r_data s) collection @ [length h]) (r_data s)"
      using x by (cases "saveLocked_h env s") (simp_all add: Let_def)
    show "h' = (if err = None then h @ [MapObj stored, MapObj stored] else h @ [MapObj stored])"
      using x by (cases "saveLocked_h env s") (simp_all add: Let_def stored_def)
    show "err = None \<longrightarrow> res = Some (length h + 1)"
      using x by (cases "saveLocked_h env s") (simp_all add: Let_def)
  qed
  have i1: "last (records_of_h (r_data s') collection) = length h"
    by (simp add: s' records_of_h_def update_conv')
  have i2: "take (length h) h' = h" by (simp add: h')
  have i3: "entries h' (length h) =
          (if map_of (entries h a) ''id'' = None
           then entries h a @ [(''id'', HInt (r_nextID s))] else entries h a)"
    by (simp add: h' entries_def nth_append stored_def)
  have i4: "err = None \<longrightarrow>
            res = Some (length h + 1) \<and> entries h' (length h + 1) = entries h' (length h)"
    using r by (simp add: h' entries_def nth_append)
  have i5: "\<forall>x key value. x \<noteq> length h \<longrightarrow>
            entries (set_field x key value h') (length h) = entries h' (length h)"
    by (simp add: set_field_def entries_update_other)
  from i1 i2 i3 i4 i5 show "last (records_of_h (r_data s') collection) = length h
      \<and> take (length h) h' = h
      \<and> entries h' (length h) =
          (if map_of (entries h a) ''id'' = None
           then entries h a @ [(''id'', HInt (r_nextID s))] else entries h a)
      \<and> (err = None \<longrightarrow>
            res = Some (length h + 1) \<and> entries h' (length h + 1) = entries h' (length h))
      \<and> (\<forall>x key value. x \<noteq> length h \<longrightarrow>
            entries (set_field x key value h') (length h) = entries h' (length h))"
    by (intro conjI)
next
  assume q: "collection \<noteq> '''' \<and> closed_heap h \<and> criteria < length h
      \<and> (\<forall>r \<in> set (records_of_h (r_data s) collection). r < length h \<and> wf_map (entries h r))
      \<and> Query_h pf n collection criteria s h = ((result, qerr), qs, qh)"
  then have c: "collection \<noteq> ''''" and cl: "closed_heap h" and cr: "criteria < length h"
    and recs: "\<forall>r \<in> set (records_of_h (r_data s) collection). r < length h \<and> wf_map (entries h r)"
    and eq: "Query_h pf n collection criteria s h = ((result, qerr), qs, qh)" by simp_all
  from eq c have loop: "Query_loop_h pf n criteria (records_of_h (r_data s) collection) (h @ []) =
      (result, qh)" and ok: "qerr = None" "qs = s"
    by (auto simp: Query_h_def Let_def split: prod.splits)
  from Query_loop_h_props [OF cl cr recs loop] obtain added where
    qh: "qh = h @ added" and res: "result = [length h ..< length qh]"
    and ents: "map (entries qh) result =
          map (entries h)
            (filter (\<lambda>r. matches_h pf n h r criteria) (records_of_h (r_data s) collection))"
    by auto
  have q3: "take (length h) qh = h" by (simp add: qh)
  have q6: "\<forall>x \<in> set result. \<forall>r \<in> set (records_of_h (r_data s) collection). \<forall>key value.
            entries (set_field x key value qh) r = entries qh r \<and> entries qh r = entries h r"
  proof (intro ballI allI)
    fix x r key "value"
    assume x: "x \<in> set result" and r: "r \<in> set (records_of_h (r_data s) collection)"
    from x res have "length h \<le> x" by simp
    moreover from r recs have rl: "r < length h" by blast
    ultimately have "r \<noteq> x" by simp
    then show "entries (set_field x key value qh) r = entries qh r \<and> entries qh r = entries h r"
      using rl by (simp add: set_field_def entries_update_other qh entries_old)
  qed
  from ok q3 res ents q6 show "qerr = None \<and> qs = s \<and> take (length h) qh = h
      \<and> result = [length h ..< length qh]
      \<and> map (entries qh) result =
          map (entries h)
            (filter (\<lambda>r. matches_h pf n h r criteria) (records_of_h (r_data s) collection))
      \<and> (\<forall>x \<in> set result. \<forall>r \<in> set (records_of_h (r_data s) collection). \<forall>key value.
            entries (set_field x key value qh) r = entries qh r \<and> entries qh r = entries h r)"
    by (intro conjI)
qed

theorem insert_and_query_copy_top_level_witness:
  "''users'' \<noteq> '''' \<and> 1 < length crew_heap \<and> wf_map (entries crew_heap 1)
   \<and> Insert_h no_failure ''users'' (Some 1) \<lparr>r_path = '''', r_data = [], r_nextID = 1\<rparr> crew_heap = ((Some 3, None), \<lparr>r_path = '''', r_data = [(''users'', [2])], r_nextID = 2\<rparr>, (crew_heap @ [stored_ada, stored_ada]))
   \<and> last (records_of_h (r_data \<lparr>r_path = '''', r_data = [(''users'', [2])], r_nextID = 2\<rparr>) ''users'') = 2
   \<and> entries (crew_heap @ [stored_ada, stored_ada]) 2 = [(''name'', HString ''Ada''), (''craft'', HRef 0), (''id'', HInt 1)]
   \<and> entries (crew_heap @ [stored_ada, stored_ada]) 3 = entries (crew_heap @ [stored_ada, stored_ada]) 2
   \<and> entries (set_field 3 ''name'' (HString ''Eve'') (crew_heap @ [stored_ada, stored_ada])) 2 = entries (crew_heap @ [stored_ada, stored_ada]) 2
   \<and> closed_heap (crew_heap @ [stored_ada, stored_ada, MapObj [(''name'', HString ''Ada'')]]) \<and> 4 < length (crew_heap @ [stored_ada, stored_ada, MapObj [(''name'', HString ''Ada'')]])
   \<and> records_of_h (r_data \<lparr>r_path = '''', r_data = [(''users'', [2])], r_nextID = 2\<rparr>) ''users'' = [2] \<and> wf_map (entries (crew_heap @ [stored_ada, stored_ada, MapObj [(''name'', HString ''Ada'')]]) 2)
   \<and> Query_h (\<lambda>_. None) 1 ''users'' 4 \<lparr>r_path = '''', r_data = [(''users'', [2])], r_nextID = 2\<rparr> (crew_heap @ [stored_ada, stored_ada, MapObj [(''name'', HString ''Ada'')]]) = (([5], None), \<lparr>r_path = '''', r_data = [(''users'', [2])], r_nextID = 2\<rparr>, (crew_heap @ [stored_ada, stored_ada, MapObj [(''name'', HString ''Ada'')], stored_ada]))
   \<and> entries (crew_heap @ [stored_ada, stored_ada, MapObj [(''name'', HString ''Ada'')], stored_ada]) 5 = entries (crew_heap @ [stored_ada, stored_ada, MapObj [(''name'', HString ''Ada'')]]) 2
   \<and> entries (set_field 5 ''name'' (HString ''Eve'') (crew_heap @ [stored_ada, stored_ada, MapObj [(''name'', HString ''Ada'')], stored_ada])) 2 = entries (crew_heap @ [stored_ada, stored_ada, MapObj [(''name'', HString ''Ada'')], stored_ada]) 2"
proof -
  have wf: "wf_map (entries crew_heap 1)" "wf_map (entries (crew_heap @ [stored_ada, stored_ada, MapObj [(''name'', HString ''Ada'')]]) 2)"
    by (simp_all add: entries_def wf_map_def crew_heap_def stored_ada_def)
  have ins: "Insert_h no_failure ''users'' (Some 1) \<lparr>r_path = '''', r_data = [], r_nextID = 1\<rparr> crew_heap = ((Some 3, None), \<lparr>r_path = '''', r_data = [(''users'', [2])], r_nextID = 2\<rparr>, (crew_heap @ [stored_ada, stored_ada]))"
    using Insert_h_Some [of "''users''" crew_heap 1 no_failure "\<lparr>r_path = '''', r_data = [], r_nextID = 1\<rparr>"] wf(1)
    by (simp add: entries_def saveLocked_h_def records_of_h_def crew_heap_def stored_ada_def
        no_failure_def Let_def)
  have closed: "closed_heap (crew_heap @ [stored_ada, stored_ada, MapObj [(''name'', HString ''Ada'')]])"
    by (simp add: closed_heap_def refs_of_def crew_heap_def stored_ada_def)
  have clone: "cloneRecord_h (crew_heap @ [stored_ada, stored_ada, MapObj [(''name'', HString ''Ada'')]]) 2 = (5, (crew_heap @ [stored_ada, stored_ada, MapObj [(''name'', HString ''Ada'')], stored_ada]))"
    using cloneRecord_h_eq [of "(crew_heap @ [stored_ada, stored_ada, MapObj [(''name'', HString ''Ada'')]])" 2] wf(2)
    by (simp add: entries_def crew_heap_def stored_ada_def)
  have qry: "Query_h (\<lambda>_. None) 1 ''users'' 4 \<lparr>r_path = '''', r_data = [(''users'', [2])], r_nextID = 2\<rparr> (crew_heap @ [stored_ada, stored_ada, MapObj [(''name'', HString ''Ada'')]]) = (([5], None), \<lparr>r_path = '''', r_data = [(''users'', [2])], r_nextID = 2\<rparr>, (crew_heap @ [stored_ada, stored_ada, MapObj [(''name'', HString ''Ada'')], stored_ada]))"
    using clone
    by (simp add: Query_h_def records_of_h_def matches_h_def read_record_def entries_def
        matches_def valuesEqual_def crew_heap_def stored_ada_def)
  from insert_and_query_copy_top_level
    [where collection = "''users''" and a = 1 and h = "crew_heap" and env = no_failure and s = "\<lparr>r_path = '''', r_data = [], r_nextID = 1\<rparr>"
       and res = "Some 3" and err = None and s' = "\<lparr>r_path = '''', r_data = [(''users'', [2])], r_nextID = 2\<rparr>" and h' = "(crew_heap @ [stored_ada, stored_ada])"]
    insert_and_query_copy_top_level
    [where collection = "''users''" and h = "(crew_heap @ [stored_ada, stored_ada, MapObj [(''name'', HString ''Ada'')]])" and s = "\<lparr>r_path = '''', r_data = [(''users'', [2])], r_nextID = 2\<rparr>" and pf = "\<lambda>_. None" and n = 1
       and criteria = 4 and result = "[5]" and qerr = None and qs = "\<lparr>r_path = '''', r_data = [(''users'', [2])], r_nextID = 2\<rparr>" and qh = "(crew_heap @ [stored_ada, stored_ada, MapObj [(''name'', HString ''Ada'')], stored_ada])"]
    wf ins closed qry
  show ?thesis
    by (simp add: records_of_h_def entries_def set_field_def crew_heap_def stored_ada_def)
qed

text \<open>
  The claim as first stated has \<open>Insert\<close> store a deep copy, sharing nothing with the
  caller's record, so that no mutation of a record obtained from \<open>Insert\<close> could alter the
  store. \<open>cloneRecord\<close> copies one level: a record with a nested map is stored, and
  returned, with a reference to that same map, and writing into the nested map through the
  caller's record or through the returned one (\<open>r["craft"]["callsign"] = "Hawk"\<close>) changes
  what the store's record holds.
\<close>

theorem insert_shares_nested_values:
  "Insert_h no_failure ''users'' (Some 1) \<lparr>r_path = '''', r_data = [], r_nextID = 1\<rparr> crew_heap = ((Some 3, None), \<lparr>r_path = '''', r_data = [(''users'', [2])], r_nextID = 2\<rparr>, (crew_heap @ [stored_ada, stored_ada]))
   \<and> map_of (entries (crew_heap @ [stored_ada, stored_ada]) 1) ''craft'' = Some (HRef 0)
   \<and> map_of (entries (crew_heap @ [stored_ada, stored_ada]) 2) ''craft'' = Some (HRef 0)
   \<and> map_of (entries (crew_heap @ [stored_ada, stored_ada]) 3) ''craft'' = Some (HRef 0)
   \<and> read_record 1 (crew_heap @ [stored_ada, stored_ada]) 2 =
       [(''name'', GString ''Ada''), (''craft'', GMap [(''callsign'', GString ''Eagle'')]),
        (''id'', GInt 1)]
   \<and> read_record 1 (set_field 0 ''callsign'' (HString ''Hawk'') (crew_heap @ [stored_ada, stored_ada])) 2 =
       [(''name'', GString ''Ada''), (''craft'', GMap [(''callsign'', GString ''Hawk'')]),
        (''id'', GInt 1)]"
proof -
  have wf: "wf_map (entries crew_heap 1)"
    by (simp add: entries_def wf_map_def crew_heap_def)
  have ins: "Insert_h no_failure ''users'' (Some 1) \<lparr>r_path = '''', r_data = [], r_nextID = 1\<rparr> crew_heap = ((Some 3, None), \<lparr>r_path = '''', r_data = [(''users'', [2])], r_nextID = 2\<rparr>, (crew_heap @ [stored_ada, stored_ada]))"
    using Insert_h_Some [of "''users''" crew_heap 1 no_failure "\<lparr>r_path = '''', r_data = [], r_nextID = 1\<rparr>"] wf
    by (simp add: entries_def saveLocked_h_def records_of_h_def crew_heap_def stored_ada_def
        no_failure_def Let_def)
  then show ?thesis
    by (simp add: entries_def read_record_def set_field_def crew_heap_def stored_ada_def)
qed

section \<open>The keys of the key/value store\<close>

text \<open>
  Claim C7, amended. \<open>Store.Keys\<close> returns every key of the store once, in the order the
  map yields them; it is the module function \<open>sugardb.keys\<close> that sorts: the table it
  returns holds, at 1, 2, ..., the sorted sequence of all keys currently in the store.
\<close>

theorem keys_sorted_by_module:
  assumes "wf_map (kv store)"
  shows "set (Keys store) = {key. snd (Store_Get key store)}
       \<and> distinct (Keys store)
       \<and> sugarKeys store =
           LTable (map (\<lambda>(i, key). (LNumber (Finite (real (i + 1))), LString key))
                     (enumerate 0 (sort (Keys store))))
       \<and> sorted (sort (Keys store))
       \<and> sort (Keys store) = sorted_list_of_set {key. snd (Store_Get key store)}"
proof -
  have keys: "set (Keys store) = {key. snd (Store_Get key store)}"
    by (auto simp: Keys_eq Store_Get_found)
  have dist: "distinct (Keys store)" using assms by (simp add: Keys_eq wf_map_def)
  have "sort (Keys store) = sorted_list_of_set (set (Keys store))"
    using dist by (simp add: sorted_list_of_set_sort_remdups distinct_remdups_id)
  with keys dist sugarKeys_eq [of store] show ?thesis by simp
qed

theorem keys_sorted_by_module_witness:
  "wf_map (kv \<lparr>kv = [(''b'', GFloat64 (Finite 1)), (''a'', GFloat64 (Finite 2))]\<rparr>)
   \<and> sugarKeys \<lparr>kv = [(''b'', GFloat64 (Finite 1)), (''a'', GFloat64 (Finite 2))]\<rparr> =
       LTable [(LNumber (Finite 1), LString ''a''), (LNumber (Finite 2), LString ''b'')]
   \<and> sort (Keys \<lparr>kv = [(''b'', GFloat64 (Finite 1)), (''a'', GFloat64 (Finite 2))]\<rparr>) = [''a'', ''b'']"
  using keys_sorted_by_module [of "\<lparr>kv = [(''b'', GFloat64 (Finite 1)), (''a'', GFloat64 (Finite 2))]\<rparr>"]
  by (simp add: wf_map_def Keys_def enumerate_eq_zip)

text \<open>
  The claim as first stated has the store's own operation return the sorted sequence.
  \<open>Store.Keys\<close> does not sort: a map that yields \<open>b\<close> before \<open>a\<close> gives \<open>[b, a]\<close>.
\<close>

theorem Keys_not_sorted:
  "Keys \<lparr>kv = [(''b'', GFloat64 (Finite 1)), (''a'', GFloat64 (Finite 2))]\<rparr> = [''b'', ''a'']
   \<and> \<not> sorted (Keys \<lparr>kv = [(''b'', GFloat64 (Finite 1)), (''a'', GFloat64 (Finite 2))]\<rparr>)
   \<and> wf_map (kv \<lparr>kv = [(''b'', GFloat64 (Finite 1)), (''a'', GFloat64 (Finite 2))]\<rparr>)"
  by (simp add: Keys_def wf_map_def)

section \<open>A handler that raises\<close>

text \<open>
  Claim C8. When the request table has been built and the call of the script handler
  returns an error, the function registered for the route answers with the single call
  \<open>c.JSON(500, {"error": text})\<close>, the text being the error's; the Lua state it leaves is
  the state after that one call of the handler (the handler is not called again), with the
  value stack as it was: \<open>parseLuaResponse\<close> does not run, and no header, status or body
  is written from return values.
\<close>

theorem handler_error_gives_500:
  assumes "requestToLuaTable c = Inr reqTable"
    and "handler reqTable (world L) = (Inl err, w)"
  shows "route_handler conv fmt handler c L =
           ([JSON 500 (GMap [(''error'', GString err)])], L\<lparr>world := w\<rparr>)
         \<and> (500::int) \<le> 500 \<and> (500::int) < 600"
  using assms by (simp add: route_handler_def CallByParam_def)

theorem handler_error_gives_500_witness:
  "requestToLuaTable \<lparr>req_method = ''GET'', req_path = ''/hello'', req_raw_query = '''', req_body = Inr '''',
        req_client_ip = ''127.0.0.1'', req_header = [], req_query = [], req_params = []\<rparr> = Inr (LTable [(LString ''method'', LString ''GET''), (LString ''path'', LString ''/hello''),
          (LString ''raw_query'', LString ''''), (LString ''body'', LString ''''),
          (LString ''client_ip'', LString ''127.0.0.1''), (LString ''headers'', LTable []),
          (LString ''query'', LTable []), (LString ''params'', LTable [])])
   \<and> (\<lambda>req w. (Inl ''boom'', Suc w)) (LTable [(LString ''method'', LString ''GET''), (LString ''path'', LString ''/hello''),
          (LString ''raw_query'', LString ''''), (LString ''body'', LString ''''),
          (LString ''client_ip'', LString ''127.0.0.1''), (LString ''headers'', LTable []),
          (LString ''query'', LTable []), (LString ''params'', LTable [])]) (world \<lparr>world = 0, stack = []\<rparr>)
       = (Inl ''boom'' :: error + lvalue list, Suc 0)
   \<and> route_handler (\<lambda>_. 0) (\<lambda>_. '''') (\<lambda>req w. (Inl ''boom'', Suc w)) \<lparr>req_method = ''GET'', req_path = ''/hello'', req_raw_query = '''', req_body = Inr '''',
        req_client_ip = ''127.0.0.1'', req_header = [], req_query = [], req_params = []\<rparr> \<lparr>world = 0, stack = []\<rparr> =
       ([JSON 500 (GMap [(''error'', GString ''boom'')])], \<lparr>world = Suc 0, stack = []\<rparr>)"
proof -
  have req: "requestToLuaTable \<lparr>req_method = ''GET'', req_path = ''/hello'', req_raw_query = '''', req_body = Inr '''',
        req_client_ip = ''127.0.0.1'', req_header = [], req_query = [], req_params = []\<rparr> = Inr (LTable [(LString ''method'', LString ''GET''), (LString ''path'', LString ''/hello''),
          (LString ''raw_query'', LString ''''), (LString ''body'', LString ''''),
          (LString ''client_ip'', LString ''127.0.0.1''), (LString ''headers'', LTable []),
          (LString ''query'', LTable []), (LString ''params'', LTable [])])"
    by (simp add: requestToLuaTable_def RawSetString_def)
  from req handler_error_gives_500
    [where c = "\<lparr>req_method = ''GET'', req_path = ''/hello'', req_raw_query = '''', req_body = Inr '''',
        req_client_ip = ''127.0.0.1'', req_header = [], req_query = [], req_params = []\<rparr>" and reqTable = "(LTable [(LString ''method'', LString ''GET''), (LString ''path'', LString ''/hello''),
          (LString ''raw_query'', LString ''''), (LString ''body'', LString ''''),
          (LString ''client_ip'', LString ''127.0.0.1''), (LString ''headers'', LTable []),
          (LString ''query'', LTable []), (LString ''params'', LTable [])])"
       and handler = "\<lambda>req w. (Inl ''boom'', Suc w)" and L = "\<lparr>world = 0, stack = []\<rparr>"
       and err = "''boom''" and w = "Suc 0" and fmt = "\<lambda>_. ''''"]
  show ?thesis
    by simp
qed

section \<open>A reload whose build fails\<close>

text \<open>
  Claim C9. In every state the process reaches from a successful start, when the watcher's
  callback runs and \<open>BuildRuntime\<close> fails, the callback returns after logging the failure:
  the live-runtime pointer is what it was, the old runtime's engine is still open (the only
  engine closed is the new one that failed to load), the process has not exited, the lock
  and the requests in flight are untouched, and a request that arrives afterwards is served
  to completion by the old runtime.
\<close>

theorem failed_reload_keeps_runtime:
  assumes "steps es (main_start None) = Some p" and "reload p = Watching"
  shows "\<exists>p' r. step (EvScriptChanged (Some err)) p = Some p'
           \<and> runtime p = Some r \<and> runtime p' = Some r \<and> r \<notin> closed_engines p'
           \<and> closed_engines p' = insert (engines p) (closed_engines p)
           \<and> log_lines p' = log_lines p @ [ChangeDetected, ReloadFailed err]
           \<and> \<not> exited p' \<and> reload p' = Watching
           \<and> requests p' = requests p \<and> rlocks p' = rlocks p \<and> wlock p' = wlock p
           \<and> faults p' = {}
           \<and> (\<forall>i. requests p i = NotStarted \<longrightarrow>
                 (\<exists>q. steps [EvRLock i, EvCurrent i, EvRoute i, EvRUnlock i] p' = Some q
                    \<and> requests q i = Served r \<and> faults q = {}))"
proof -
  have inv: "lifecycle_inv p" using assms(1) by (rule inv_reachable)
  then obtain r where r: "runtime p = Some r" "r < engines p" "r \<notin> closed_engines p"
    unfolding lifecycle_inv_def by blast
  have w: "\<not> wlock p" using inv assms(2) unfolding lifecycle_inv_def swap_inv_def by simp
  define p' where "p' = p\<lparr>log_lines := log_lines p @ [ChangeDetected, ReloadFailed err],
          engines := engines p + 1, closed_engines := insert (engines p) (closed_engines p)\<rparr>"
  have st: "step (EvScriptChanged (Some err)) p = Some p'"
    using assms(2) by (simp add: reload_callback_def BuildRuntime_def Let_def p'_def)
  have open': "r \<notin> closed_engines p'" using r by (simp add: p'_def)
  have clean: "\<not> exited p'" "faults p' = {}"
    using inv unfolding lifecycle_inv_def by (simp_all add: p'_def)
  have serve: "\<exists>q. steps [EvRLock i, EvCurrent i, EvRoute i, EvRUnlock i] p' = Some q
                    \<and> requests q i = Served r \<and> faults q = {}"
    if "requests p i = NotStarted" for i
    using that w r open' clean
    by (simp add: ServeHTTP_RLock_def ServeHTTP_current_def ServeHTTP_route_def
        ServeHTTP_RUnlock_def p'_def)
  show ?thesis
  proof (intro exI [of _ p'] exI [of _ r] conjI)
    show "step (EvScriptChanged (Some err)) p = Some p'" by (rule st)
    show "runtime p = Some r" by (rule r)
    show "runtime p' = Some r" using r by (simp add: p'_def)
    show "r \<notin> closed_engines p'" by (rule open')
    show "\<not> exited p'" "faults p' = {}" by (rule clean)+
    show "reload p' = Watching" using assms(2) by (simp add: p'_def)
    show "\<forall>i. requests p i = NotStarted \<longrightarrow>
                 (\<exists>q. steps [EvRLock i, EvCurrent i, EvRoute i, EvRUnlock i] p' = Some q
                    \<and> requests q i = Served r \<and> faults q = {})"
      using serve by blast
  qed (simp_all add: p'_def)
qed

theorem failed_reload_keeps_runtime_witness:
  "steps [EvRLock 0, EvCurrent 0] (main_start None) = Some \<lparr>runtime = Some 0, rlocks = {0}, wlock = False, closed_engines = {}, engines = 1,
          log_lines = [], exited = False, faults = {},
          requests = (\<lambda>_. NotStarted)(0 := Serving 0), reload = Watching\<rparr>
   \<and> reload \<lparr>runtime = Some 0, rlocks = {0}, wlock = False, closed_engines = {}, engines = 1,
          log_lines = [], exited = False, faults = {},
          requests = (\<lambda>_. NotStarted)(0 := Serving 0), reload = Watching\<rparr> = Watching
   \<and> step (EvScriptChanged (Some ''syntax error'')) \<lparr>runtime = Some 0, rlocks = {0}, wlock = False, closed_engines = {}, engines = 1,
          log_lines = [], exited = False, faults = {},
          requests = (\<lambda>_. NotStarted)(0 := Serving 0), reload = Watching\<rparr> = Some \<lparr>runtime = Some 0, rlocks = {0}, wlock = False, closed_engines = {1}, engines = 2,
          log_lines = [ChangeDetected, ReloadFailed ''syntax error''], exited = False,
          faults = {}, requests = (\<lambda>_. NotStarted)(0 := Serving 0), reload = Watching\<rparr>
   \<and> runtime \<lparr>runtime = Some 0, rlocks = {0}, wlock = False, closed_engines = {1}, engines = 2,
          log_lines = [ChangeDetected, ReloadFailed ''syntax error''], exited = False,
          faults = {}, requests = (\<lambda>_. NotStarted)(0 := Serving 0), reload = Watching\<rparr> = Some 0 \<and> 0 \<notin> closed_engines \<lparr>runtime = Some 0, rlocks = {0}, wlock = False, closed_engines = {1}, engines = 2,
          log_lines = [ChangeDetected, ReloadFailed ''syntax error''], exited = False,
          faults = {}, requests = (\<lambda>_. NotStarted)(0 := Serving 0), reload = Watching\<rparr> \<and> \<not> exited \<lparr>runtime = Some 0, rlocks = {0}, wlock = False, closed_engines = {1}, engines = 2,
          log_lines = [ChangeDetected, ReloadFailed ''syntax error''], exited = False,
          faults = {}, requests = (\<lambda>_. NotStarted)(0 := Serving 0), reload = Watching\<rparr>
   \<and> requests \<lparr>runtime = Some 0, rlocks = {0}, wlock = False, closed_engines = {}, engines = 1,
          log_lines = [], exited = False, faults = {},
          requests = (\<lambda>_. NotStarted)(0 := Serving 0), reload = Watching\<rparr> 1 = NotStarted
   \<and> (\<exists>q. steps [EvRLock 1, EvCurrent 1, EvRoute 1, EvRUnlock 1] \<lparr>runtime = Some 0, rlocks = {0}, wlock = False, closed_engines = {1}, engines = 2,
          log_lines = [ChangeDetected, ReloadFailed ''syntax error''], exited = False,
          faults = {}, requests = (\<lambda>_. NotStarted)(0 := Serving 0), reload = Watching\<rparr> = Some q
         \<and> requests q 1 = Served 0 \<and> faults q = {})"
proof -
  have reached: "steps [EvRLock 0, EvCurrent 0] (main_start None) = Some \<lparr>runtime = Some 0, rlocks = {0}, wlock = False, closed_engines = {}, engines = 1,
          log_lines = [], exited = False, faults = {},
          requests = (\<lambda>_. NotStarted)(0 := Serving 0), reload = Watching\<rparr>"
    by (simp add: main_start_def BuildRuntime_def ServeHTTP_RLock_def ServeHTTP_current_def)
  have watching: "reload \<lparr>runtime = Some 0, rlocks = {0}, wlock = False, closed_engines = {}, engines = 1,
          log_lines = [], exited = False, faults = {},
          requests = (\<lambda>_. NotStarted)(0 := Serving 0), reload = Watching\<rparr> = Watching" by simp
  from failed_reload_keeps_runtime [OF reached watching, of "''syntax error''"] reached
  show ?thesis
    by (simp add: reload_callback_def BuildRuntime_def ServeHTTP_RLock_def
        ServeHTTP_current_def ServeHTTP_route_def ServeHTTP_RUnlock_def)
qed

section \<open>Persisting fails after the change has been made\<close>

text \<open>
  Claim C10. When \<open>saveLocked\<close> fails inside \<open>Update\<close> or \<open>Delete\<close> (called with a
  collection name), the call returns the count 0 together with the error, while the store
  in memory already holds the merged records, respectively no longer holds the removed
  ones: nothing is rolled back, and the count that is returned does not tell how many
  records were changed.
\<close>

theorem update_delete_not_atomic:
  assumes "collection \<noteq> ''''" and "saveLocked env s = Some err"
  shows "fst (Update pf env collection criteria updates s) = (0, Some err)
       \<and> records_of (data (snd (Update pf env collection criteria updates s))) collection =
           map (\<lambda>record. if matches pf record criteria then apply_updates updates record else record)
             (records_of (data s) collection)
       \<and> fst (Delete pf env collection criteria s) = (0, Some err)
       \<and> records_of (data (snd (Delete pf env collection criteria s))) collection =
           filter (\<lambda>record. \<not> matches pf record criteria) (records_of (data s) collection)"
proof -
  have sv: "\<And>d. saveLocked env (s\<lparr>data := d\<rparr>) = Some err"
    using assms(2) by (simp add: saveLocked_def)
  show ?thesis
    using assms(1) by (simp add: Update_def Delete_def Update_loop_eq Delete_loop_eq sv)
qed

theorem update_delete_not_atomic_witness:
  "''users'' \<noteq> ''''
   \<and> saveLocked \<lparr>env_dir = ''.'', env_mkdir = None, env_marshal = None, env_write = Some ''disk full''\<rparr>
        \<lparr>path = ''sugardb.json'',
         data = [(''users'', [[(''id'', GInt 1), (''role'', GString ''pilot'')]])],
         nextID = 2\<rparr> = Some ''disk full''
   \<and> fst (Update (\<lambda>_. None)
        \<lparr>env_dir = ''.'', env_mkdir = None, env_marshal = None, env_write = Some ''disk full''\<rparr>
        ''users'' [(''role'', GString ''pilot'')] [(''role'', GString ''commander'')]
        \<lparr>path = ''sugardb.json'',
         data = [(''users'', [[(''id'', GInt 1), (''role'', GString ''pilot'')]])],
         nextID = 2\<rparr>) = (0, Some ''disk full'')
   \<and> records_of (data (snd (Update (\<lambda>_. None)
        \<lparr>env_dir = ''.'', env_mkdir = None, env_marshal = None, env_write = Some ''disk full''\<rparr>
        ''users'' [(''role'', GString ''pilot'')] [(''role'', GString ''commander'')]
        \<lparr>path = ''sugardb.json'',
         data = [(''users'', [[(''id'', GInt 1), (''role'', GString ''pilot'')]])],
         nextID = 2\<rparr>))) ''users'' = [[(''id'', GInt 1), (''role'', GString ''commander'')]]
   \<and> fst (Delete (\<lambda>_. None)
        \<lparr>env_dir = ''.'', env_mkdir = None, env_marshal = None, env_write = Some ''disk full''\<rparr>
        ''users'' [(''role'', GString ''pilot'')]
        \<lparr>path = ''sugardb.json'',
         data = [(''users'', [[(''id'', GInt 1), (''role'', GString ''pilot'')]])],
         nextID = 2\<rparr>) = (0, Some ''disk full'')
   \<and> records_of (data (snd (Delete (\<lambda>_. None)
        \<lparr>env_dir = ''.'', env_mkdir = None, env_marshal = None, env_write = Some ''disk full''\<rparr>
        ''users'' [(''role'', GString ''pilot'')]
        \<lparr>path = ''sugardb.json'',
         data = [(''users'', [[(''id'', GInt 1), (''role'', GString ''pilot'')]])],
         nextID = 2\<rparr>))) ''users'' = []"
  using update_delete_not_atomic
    [of "''users''"
        "\<lparr>env_dir = ''.'', env_mkdir = None, env_marshal = None, env_write = Some ''disk full''\<rparr>"
        "\<lparr>path = ''sugardb.json'',
         data = [(''users'', [[(''id'', GInt 1), (''role'', GString ''pilot'')]])],
         nextID = 2\<rparr>"
        "''disk full''" "\<lambda>_. None" "[(''role'', GString ''pilot'')]"
        "[(''role'', GString ''commander'')]"]
  by (simp add: saveLocked_def records_of_def matches_def valuesEqual_def apply_updates_def)

end
